theory Spec2Isabelle
  imports Main "HOL-Library.Multiset" "HOL-Library.AList"
begin

section \<open>Python exceptions\<close>

text \<open>
  The one exception the modelled code can raise: \<^verbatim>\<open>d[k]\<close> on a dict without the key \<^verbatim>\<open>k\<close>. A
  function that can raise returns \<open>py_error + 'a\<close>, with \<open>Inl\<close> for the exception.
\<close>

datatype py_error = KeyError string

section \<open>services/dependency\_graph.py: the dependency index\<close>

text \<open>
  \<^verbatim>\<open>EntityNode\<close> is the dataclass of the source. Its two \<^verbatim>\<open>set[str]\<close> fields are kept as
  lists: the elements of the Python set in the order in which a \<^verbatim>\<open>for\<close> loop enumerates
  them. Nothing below depends on that order being a particular one.
\<close>

record EntityNode =
  ent_id :: string
  ent_name :: string
  dependencies :: "string list"
  dependents :: "string list"

text \<open>
  \<^verbatim>\<open>self.nodes\<close>, a \<^verbatim>\<open>dict[str, EntityNode]\<close>, is an association list in insertion order;
  \<^verbatim>\<open>k in self.nodes\<close> is \<open>map_of nodes k \<noteq> None\<close> and \<^verbatim>\<open>self.nodes[k]\<close> is read only under
  that test.
\<close>

type_synonym DependencyGraph = "(string \<times> EntityNode) list"

definition adjacent_ids :: "(EntityNode \<Rightarrow> string list) \<Rightarrow> DependencyGraph \<Rightarrow> string set" where
  "adjacent_ids adj nodes = (\<Union>p \<in> set nodes. set (adj (snd p)))"

lemma finite_adjacent_ids: "finite (adjacent_ids adj nodes)"
  by (simp add: adjacent_ids_def)

lemma adjacent_ids_lookup:
  "map_of nodes k = Some n \<Longrightarrow> set (adj n) \<subseteq> adjacent_ids adj nodes"
  by (force simp: adjacent_ids_def dest: map_of_SomeD)

text \<open>
  The worklist loop shared, up to the field it follows, by \<^verbatim>\<open>get_dependencies\<close> and
  \<^verbatim>\<open>get_dependents\<close>:
  \<^verbatim>\<open>
        while to_visit:
            current = to_visit.pop()
            if current in visited:
                continue
            visited.add(current)
            if current in self.nodes:
                for dep in self.nodes[current].<field>:
                    if dep not in visited:
                        to_visit.append(dep)
  \<close>
  \<^verbatim>\<open>pop()\<close> takes the last element and \<^verbatim>\<open>append\<close> adds at the end. The state carries,
  beside \<^verbatim>\<open>visited\<close>, the list of the nodes in the order in which they pass the
  \<^verbatim>\<open>current in visited\<close> test (the nodes that are expanded); the loop never reads it.
\<close>

function closure_loop ::
  "(EntityNode \<Rightarrow> string list) \<Rightarrow> DependencyGraph \<Rightarrow> string set \<times> string list \<Rightarrow> string list
    \<Rightarrow> string set \<times> string list" where
  "closure_loop adj nodes (visited, expanded) to_visit =
     (if to_visit = [] then (visited, expanded)
      else
        let current = last to_visit;
            to_visit = butlast to_visit
        in if current \<in> visited then closure_loop adj nodes (visited, expanded) to_visit
           else
             let visited = insert current visited;
                 expanded = expanded @ [current]
             in (case map_of nodes current of
                   None \<Rightarrow> closure_loop adj nodes (visited, expanded) to_visit
                 | Some n \<Rightarrow>
                     closure_loop adj nodes (visited, expanded)
                       (to_visit @ filter (\<lambda>dep. dep \<notin> visited) (adj n))))"
  by pat_completeness auto

definition closure_pending :: "(EntityNode \<Rightarrow> string list) \<Rightarrow> DependencyGraph \<Rightarrow> string set \<Rightarrow> string list \<Rightarrow> nat" where
  "closure_pending adj nodes visited to_visit =
     card ((set to_visit \<union> adjacent_ids adj nodes) - visited)"

lemma closure_pending_skip:
  "to_visit \<noteq> [] \<Longrightarrow>
   closure_pending adj nodes visited (butlast to_visit) \<le> closure_pending adj nodes visited to_visit"
  unfolding closure_pending_def
  by (intro card_mono) (auto simp: finite_adjacent_ids dest: in_set_butlastD)

lemma closure_pending_expand:
  assumes "to_visit \<noteq> []" "last to_visit \<notin> visited"
    and "set extra \<subseteq> adjacent_ids adj nodes"
  shows "closure_pending adj nodes (insert (last to_visit) visited) (butlast to_visit @ extra)
           < closure_pending adj nodes visited to_visit"
  unfolding closure_pending_def
proof (intro psubset_card_mono)
  show "finite ((set to_visit \<union> adjacent_ids adj nodes) - visited)"
    by (simp add: finite_adjacent_ids)
  have "last to_visit \<in> set to_visit" using assms(1) by simp
  then show "(set (butlast to_visit @ extra) \<union> adjacent_ids adj nodes) - insert (last to_visit) visited
        \<subset> (set to_visit \<union> adjacent_ids adj nodes) - visited"
    using assms(2,3) by (auto dest: in_set_butlastD)
qed

termination closure_loop
proof (relation "measures [\<lambda>(adj, nodes, (visited, expanded), to_visit). closure_pending adj nodes visited to_visit,
                           \<lambda>(adj, nodes, (visited, expanded), to_visit). length to_visit]", goal_cases)
  case 1
  show ?case by simp
next
  case (2 adj nodes visited expanded to_visit)
  then show ?case
    using closure_pending_skip[of to_visit adj nodes visited]
    by (auto simp: le_less)
next
  case (3 adj nodes visited expanded to_visit)
  then show ?case
    using closure_pending_expand[of to_visit visited "[]" adj nodes] by simp
next
  case (4 adj nodes visited expanded to_visit cur tv vis ex n)
  then show ?case
    using closure_pending_expand[of to_visit visited "filter (\<lambda>dep. dep \<notin> insert (last to_visit) visited) (adj n)" adj nodes]
      adjacent_ids_lookup[of nodes "last to_visit" n adj]
    by auto
qed

declare closure_loop.simps [simp del]

text \<open>
  \<^verbatim>\<open>get_dependencies\<close> and \<^verbatim>\<open>get_dependents\<close>: the guard on unknown ids, the loop from
  \<^verbatim>\<open>visited = set()\<close> and \<^verbatim>\<open>to_visit = [entity_id]\<close>, then \<^verbatim>\<open>visited.remove(entity_id)\<close>.
  \<^verbatim>\<open>remove\<close> raises on a missing element; lemma \<open>closure_loop_start_visited\<close> below
  shows that \<^verbatim>\<open>entity_id\<close> is always in \<^verbatim>\<open>visited\<close> at that point.
\<close>

definition get_dependencies :: "DependencyGraph \<Rightarrow> string \<Rightarrow> string set" where
  "get_dependencies nodes entity_id =
     (if map_of nodes entity_id = None then {}
      else fst (closure_loop dependencies nodes ({}, []) [entity_id]) - {entity_id})"

definition get_dependents :: "DependencyGraph \<Rightarrow> string \<Rightarrow> string set" where
  "get_dependents nodes entity_id =
     (if map_of nodes entity_id = None then {}
      else fst (closure_loop dependents nodes ({}, []) [entity_id]) - {entity_id})"

text \<open>The nodes each call expands, in order (empty when the guard returns at once).\<close>

definition get_dependencies_expanded :: "DependencyGraph \<Rightarrow> string \<Rightarrow> string list" where
  "get_dependencies_expanded nodes entity_id =
     (if map_of nodes entity_id = None then []
      else snd (closure_loop dependencies nodes ({}, []) [entity_id]))"

definition get_dependents_expanded :: "DependencyGraph \<Rightarrow> string \<Rightarrow> string list" where
  "get_dependents_expanded nodes entity_id =
     (if map_of nodes entity_id = None then []
      else snd (closure_loop dependents nodes ({}, []) [entity_id]))"

definition get_impact :: "DependencyGraph \<Rightarrow> string \<Rightarrow> string set" where
  "get_impact nodes entity_id = {entity_id} \<union> get_dependents nodes entity_id"

definition can_parallelize :: "DependencyGraph \<Rightarrow> string \<Rightarrow> string \<Rightarrow> bool" where
  "can_parallelize nodes change_a change_b =
     (let impact_a = get_impact nodes change_a;
          impact_b = get_impact nodes change_b
      in card (impact_a \<inter> impact_b) = 0)"

definition analyze_change_risk :: "DependencyGraph \<Rightarrow> string \<Rightarrow> string" where
  "analyze_change_risk nodes entity_id =
     (if map_of nodes entity_id = None then ''unknown''
      else
        let impact_size = card (get_impact nodes entity_id)
        in if impact_size = 1 then ''low''
           else if impact_size \<le> 3 then ''medium''
           else ''high'')"

text \<open>
  \<^verbatim>\<open>get_change_order\<close>. Its two local dicts are association lists in insertion order, read
  with \<open>map_of\<close> and written with \<open>AList.update\<close> (which replaces the value of a key that is
  there and appends a key that is not); a subscript on a missing key is a \<^verbatim>\<open>KeyError\<close>.
  \<open>dict_fromkeys\<close> is the comprehension \<^verbatim>\<open>{e: v for e in entities}\<close>.
\<close>

definition dict_fromkeys :: "string list \<Rightarrow> 'v \<Rightarrow> (string \<times> 'v) list" where
  "dict_fromkeys keys v = fold (\<lambda>k d. AList.update k v d) keys []"

text \<open>
  The loops that fill \<^verbatim>\<open>graph\<close> and \<^verbatim>\<open>in_degree\<close>: \<open>add_dependencies\<close> is the inner loop over the
  dependencies of one entity,
  \<^verbatim>\<open>
                for dep in self.nodes[entity].dependencies:
                    if dep in entities:
                        graph[dep].append(entity)
                        in_degree[entity] += 1
  \<close>
  and \<open>build_graph\<close> the outer loop over the entities still to come, with its test
  \<^verbatim>\<open>if entity in self.nodes\<close>.
\<close>

fun add_dependencies :: "string list \<Rightarrow> string \<Rightarrow> string list
    \<Rightarrow> (string \<times> string list) list \<times> (string \<times> int) list
    \<Rightarrow> py_error + (string \<times> string list) list \<times> (string \<times> int) list" where
  "add_dependencies entities entity [] (graph, in_degree) = Inr (graph, in_degree)"
| "add_dependencies entities entity (dep # deps) (graph, in_degree) =
     (if dep \<in> set entities
      then (case map_of graph dep of
              None \<Rightarrow> Inl (KeyError dep)
            | Some dependents_of_dep \<Rightarrow>
                (case map_of in_degree entity of
                   None \<Rightarrow> Inl (KeyError entity)
                 | Some n \<Rightarrow>
                     add_dependencies entities entity deps
                       (AList.update dep (dependents_of_dep @ [entity]) graph,
                        AList.update entity (n + 1) in_degree)))
      else add_dependencies entities entity deps (graph, in_degree))"

fun build_graph :: "DependencyGraph \<Rightarrow> string list \<Rightarrow> string list
    \<Rightarrow> (string \<times> string list) list \<times> (string \<times> int) list
    \<Rightarrow> py_error + (string \<times> string list) list \<times> (string \<times> int) list" where
  "build_graph nodes entities [] state = Inr state"
| "build_graph nodes entities (entity # rest) state =
     (case map_of nodes entity of
        None \<Rightarrow> build_graph nodes entities rest state
      | Some node \<Rightarrow>
          (case add_dependencies entities entity (dependencies node) state of
             Inl e \<Rightarrow> Inl e
           | Inr state' \<Rightarrow> build_graph nodes entities rest state'))"

text \<open>\<^verbatim>\<open>queue = [e for e in entities if in_degree[e] == 0]\<close>\<close>

fun initial_queue :: "(string \<times> int) list \<Rightarrow> string list \<Rightarrow> py_error + string list" where
  "initial_queue in_degree [] = Inr []"
| "initial_queue in_degree (e # es) =
     (case map_of in_degree e of
        None \<Rightarrow> Inl (KeyError e)
      | Some n \<Rightarrow>
          (case initial_queue in_degree es of
             Inl err \<Rightarrow> Inl err
           | Inr queue \<Rightarrow> Inr (if n = 0 then e # queue else queue)))"

text \<open>
  The body of the \<^verbatim>\<open>while\<close> loop after the pop, over the dependents still to come:
  \<^verbatim>\<open>
            for dependent in graph.get(current, []):
                in_degree[dependent] -= 1
                if in_degree[dependent] == 0:
                    queue.append(dependent)
  \<close>
\<close>

fun release_dependents :: "string list \<Rightarrow> (string \<times> int) list \<times> string list
    \<Rightarrow> py_error + (string \<times> int) list \<times> string list" where
  "release_dependents [] (in_degree, queue) = Inr (in_degree, queue)"
| "release_dependents (dependent # rest) (in_degree, queue) =
     (case map_of in_degree dependent of
        None \<Rightarrow> Inl (KeyError dependent)
      | Some n \<Rightarrow>
          let in_degree = AList.update dependent (n - 1) in_degree
          in release_dependents rest
               (in_degree, if n - 1 = 0 then queue @ [dependent] else queue))"

text \<open>
  The keys with a positive count. A key is appended to the queue only when its count goes
  from one to zero, so each pass of the \<^verbatim>\<open>while\<close> loop lowers the length of the queue plus the
  number of these keys: the loop terminates from every state.
\<close>

definition positive_keys :: "(string \<times> int) list \<Rightarrow> string set" where
  "positive_keys in_degree = {k. \<exists>n. map_of in_degree k = Some n \<and> 1 \<le> n}"

lemma finite_positive_keys: "finite (positive_keys in_degree)"
proof (rule finite_subset)
  show "positive_keys in_degree \<subseteq> fst ` set in_degree"
    by (auto simp: positive_keys_def dest!: map_of_SomeD intro: rev_image_eqI)
qed simp

lemma release_dependents_measure:
  "release_dependents ds (in_degree, queue) = Inr (in_degree', queue') \<Longrightarrow>
   length queue' + card (positive_keys in_degree') \<le> length queue + card (positive_keys in_degree)"
proof (induction ds arbitrary: in_degree queue)
  case Nil
  then show ?case by simp
next
  case (Cons d ds)
  from Cons.prems obtain n where n: "map_of in_degree d = Some n"
    and r: "release_dependents ds (AList.update d (n - 1) in_degree,
              if n - 1 = 0 then queue @ [d] else queue) = Inr (in_degree', queue')"
    by (auto simp: Let_def split: option.splits)
  note ih = Cons.IH[OF r]
  show ?case
  proof (cases "n = 1")
    case True
    have "positive_keys (AList.update d (n - 1) in_degree) = positive_keys in_degree - {d}"
      using True n by (auto simp: positive_keys_def update_conv')
    moreover have "d \<in> positive_keys in_degree" using True n by (simp add: positive_keys_def)
    ultimately have "card (positive_keys (AList.update d (n - 1) in_degree)) + 1 = card (positive_keys in_degree)"
      using finite_positive_keys[of in_degree]
      by (metis One_nat_def Suc_eq_plus1 card.remove)
    with ih True show ?thesis by simp
  next
    case False
    have "positive_keys (AList.update d (n - 1) in_degree) \<subseteq> positive_keys in_degree"
      using False n by (auto simp: positive_keys_def update_conv' split: if_splits)
    then have "card (positive_keys (AList.update d (n - 1) in_degree)) \<le> card (positive_keys in_degree)"
      by (intro card_mono finite_positive_keys)
    with ih False show ?thesis by simp
  qed
qed

text \<open>
  The \<^verbatim>\<open>while queue:\<close> loop; \<^verbatim>\<open>queue.pop(0)\<close> takes the first element.
\<close>

function kahn_loop :: "(string \<times> string list) list \<Rightarrow> (string \<times> int) list \<Rightarrow> string list
    \<Rightarrow> string list \<Rightarrow> py_error + string list" where
  "kahn_loop graph in_degree queue result =
     (case queue of
        [] \<Rightarrow> Inr result
      | current # queue \<Rightarrow>
          (case release_dependents (case map_of graph current of None \<Rightarrow> [] | Some ds \<Rightarrow> ds)
                  (in_degree, queue) of
             Inl e \<Rightarrow> Inl e
           | Inr (in_degree, queue) \<Rightarrow> kahn_loop graph in_degree queue (result @ [current])))"
  by pat_completeness auto
termination
proof (relation "measure (\<lambda>(graph, in_degree, queue, result). length queue + card (positive_keys in_degree))",
    goal_cases)
  case 1
  show ?case by simp
next
  case (2 graph in_degree queue result current rest state in_degree' queue')
  then show ?case
    by (auto dest: release_dependents_measure)
qed

declare kahn_loop.simps [simp del]

text \<open>
  The whole function. When the loop has not output every entity, the input list is returned.
\<close>

definition get_change_order :: "DependencyGraph \<Rightarrow> string list \<Rightarrow> py_error + string list" where
  "get_change_order nodes entities =
     (case build_graph nodes entities entities (dict_fromkeys entities [], dict_fromkeys entities 0) of
        Inl e \<Rightarrow> Inl e
      | Inr (graph, in_degree) \<Rightarrow>
          (case initial_queue in_degree entities of
             Inl e \<Rightarrow> Inl e
           | Inr queue \<Rightarrow>
               (case kahn_loop graph in_degree queue [] of
                  Inl e \<Rightarrow> Inl e
                | Inr result \<Rightarrow>
                    if length result \<noteq> length entities then Inr entities else Inr result)))"

text \<open>
  Notions the properties of \<^verbatim>\<open>get_change_order\<close> are stated with: the dependencies of an id in
  the index (none for an id the index does not know), those of them that are in the input
  list, and the dependency graph induced on the input list, with an edge from an id to each
  of its dependencies when both are in the list. \<open>set_valued\<close> says that the lists standing
  for the \<^verbatim>\<open>dependencies\<close> sets of the index have no repeated element, as a Python set has none.
\<close>

definition entity_dependencies :: "DependencyGraph \<Rightarrow> string \<Rightarrow> string list" where
  "entity_dependencies nodes x = (case map_of nodes x of None \<Rightarrow> [] | Some node \<Rightarrow> dependencies node)"

definition in_set_dependencies :: "DependencyGraph \<Rightarrow> string list \<Rightarrow> string \<Rightarrow> string set" where
  "in_set_dependencies nodes ids x = set (entity_dependencies nodes x) \<inter> set ids"

definition induced_subgraph :: "DependencyGraph \<Rightarrow> string list \<Rightarrow> (string \<times> string) set" where
  "induced_subgraph nodes ids = {(x, d). x \<in> set ids \<and> d \<in> in_set_dependencies nodes ids x}"

definition set_valued :: "DependencyGraph \<Rightarrow> bool" where
  "set_valued nodes = list_all (\<lambda>p. distinct (dependencies (snd p))) nodes"

text \<open>
  The first-in-first-out order of the queue, read off an output list: the position of an id in
  a list; the release time of an id, which is zero when it has no dependency in the input
  list and otherwise one more than the position, in the output, of the last of these
  dependencies; and the order "released earlier, or released together and earlier in the
  input list".
\<close>

definition position :: "'a list \<Rightarrow> 'a \<Rightarrow> nat" where
  "position xs x = length (takeWhile (\<lambda>y. y \<noteq> x) xs)"

definition release_time :: "DependencyGraph \<Rightarrow> string list \<Rightarrow> string list \<Rightarrow> string \<Rightarrow> nat" where
  "release_time nodes ids order x =
     (if in_set_dependencies nodes ids x = {} then 0
      else Suc (Max (position order ` in_set_dependencies nodes ids x)))"

definition fifo_before :: "DependencyGraph \<Rightarrow> string list \<Rightarrow> string list \<Rightarrow> string \<Rightarrow> string \<Rightarrow> bool" where
  "fifo_before nodes ids order x y =
     (release_time nodes ids order x < release_time nodes ids order y
      \<or> (release_time nodes ids order x = release_time nodes ids order y
          \<and> position ids x < position ids y))"

section \<open>generators/generate\_graph.py: the graph compiler\<close>

text \<open>
  The spec records are JSON objects read as Python dicts. A key that may be absent is an
  \<open>option\<close>; \<^verbatim>\<open>d.get(k, default)\<close> is the case distinction on it and \<^verbatim>\<open>d[k]\<close> on an absent
  key raises \<^verbatim>\<open>KeyError\<close>. Values are strings, and lists of strings or of records, as the
  generator expects them.
\<close>

record Field =
  field_name :: "string option"
  field_type :: "string option"
  field_references :: "string option"

record Entity =
  entity_name :: "string option"
  entity_owner :: "string option"
  entity_criticality :: "string option"
  entity_fields :: "Field list option"

record Algorithm =
  algorithm_id :: "string option"
  algorithm_name :: "string option"
  algorithm_owner :: "string option"
  algorithm_criticality :: "string option"

record Workflow =
  workflow_id :: "string option"
  workflow_name :: "string option"
  workflow_owner :: "string option"
  workflow_criticality :: "string option"
  workflow_sla :: "string option"
  workflow_produces :: "string list option"
  workflow_consumes :: "string list option"

text \<open>
  \<^verbatim>\<open>specs.get('entities', {}).get('entities', [])\<close> and its two siblings: the three lists, empty
  when a key is absent.
\<close>

record Specs =
  specs_entities :: "Entity list"
  specs_algorithms :: "Algorithm list"
  specs_workflows :: "Workflow list"

datatype MetaValue = Str string | Num nat

record Node =
  gnode_id :: string
  gnode_type :: string
  label :: string
  metadata :: "(string \<times> MetaValue) list"
  status_source :: "string option"

record Edge =
  source :: string
  target :: string
  relation :: string
  semantics :: string

record Graph =
  version :: string
  generated_at :: string
  graph_nodes :: "Node list"
  graph_edges :: "Edge list"

text \<open>
  \<^verbatim>\<open>str.lower()\<close> on names written in ASCII: the letters \<^verbatim>\<open>A\<close> to \<^verbatim>\<open>Z\<close> are lowered and every other
  character is left as it is. Python also lowers letters outside ASCII, which this leaves
  alone; the general properties below use no fact about \<open>lower\<close>, so they hold for those
  names as well, and the evaluated examples have ASCII names only.
\<close>

definition lower_char :: "char \<Rightarrow> char" where
  "lower_char c =
     (if 65 \<le> (of_char c :: nat) \<and> (of_char c :: nat) \<le> 90 then char_of (of_char c + 32 :: nat) else c)"

definition lower :: "string \<Rightarrow> string" where
  "lower s = map lower_char s"

definition get_or :: "'a option \<Rightarrow> 'a \<Rightarrow> 'a" where
  "get_or v fallback = (case v of None \<Rightarrow> fallback | Some x \<Rightarrow> x)"

definition entity_to_node :: "Entity \<Rightarrow> py_error + Node" where
  "entity_to_node entity =
     (case entity_name entity of
        None \<Rightarrow> Inl (KeyError ''name'')
      | Some name \<Rightarrow>
          let name_lower = lower name
          in Inr \<lparr>gnode_id = ''asset.entity.'' @ name_lower,
                  gnode_type = ''ASSET'',
                  label = name,
                  metadata =
                    [(''owner'', Str (get_or (entity_owner entity) ''System'')),
                     (''business_criticality'', Str (get_or (entity_criticality entity) ''MEDIUM'')),
                     (''fields_count'', Num (length (get_or (entity_fields entity) [])))],
                  status_source = Some (''hook.entity.'' @ name_lower @ ''_status'')\<rparr>)"

definition algorithm_to_node :: "Algorithm \<Rightarrow> Node" where
  "algorithm_to_node algorithm =
     (let algo_id = get_or (algorithm_id algorithm) (get_or (algorithm_name algorithm) ''unknown'');
          name = get_or (algorithm_name algorithm) algo_id
      in \<lparr>gnode_id = ''algo.compute.'' @ algo_id,
          gnode_type = ''ALGORITHM'',
          label = name,
          metadata =
            [(''owner'', Str (get_or (algorithm_owner algorithm) ''System'')),
             (''business_criticality'', Str (get_or (algorithm_criticality algorithm) ''MEDIUM''))],
          status_source = None\<rparr>)"

definition workflow_to_node :: "Workflow \<Rightarrow> Node" where
  "workflow_to_node workflow =
     (let wf_id = get_or (workflow_id workflow) (get_or (workflow_name workflow) ''unknown'');
          name = get_or (workflow_name workflow) wf_id
      in \<lparr>gnode_id = ''wf.process.'' @ wf_id,
          gnode_type = ''WORKFLOW'',
          label = name,
          metadata =
            [(''owner'', Str (get_or (workflow_owner workflow) ''System'')),
             (''business_criticality'', Str (get_or (workflow_criticality workflow) ''HIGH'')),
             (''sla'', Str (get_or (workflow_sla workflow) ''None''))],
          status_source = None\<rparr>)"

text \<open>
  A \<^verbatim>\<open>for\<close> loop whose body appends to one list and may raise: the pieces are concatenated in
  order, and the first exception ends the loop and is the result.
\<close>

fun collect :: "('a \<Rightarrow> py_error + 'b list) \<Rightarrow> 'a list \<Rightarrow> py_error + 'b list" where
  "collect f [] = Inr []"
| "collect f (x # xs) =
     (case f x of
        Inl e \<Rightarrow> Inl e
      | Inr ys \<Rightarrow> (case collect f xs of Inl e \<Rightarrow> Inl e | Inr zs \<Rightarrow> Inr (ys @ zs)))"

text \<open>
  The body of the loop over an entity's fields. \<^verbatim>\<open>field.get('references')\<close> is tested for
  truth: an absent key and the empty string both fail the test. \<^verbatim>\<open>field['name']\<close> is read only
  when the edge is built.
\<close>

definition field_edge :: "string set \<Rightarrow> string \<Rightarrow> Field \<Rightarrow> py_error + Edge list" where
  "field_edge node_ids entity_id field =
     (case field_references field of
        None \<Rightarrow> Inr []
      | Some ref \<Rightarrow>
          if field_type field = Some ''uuid'' \<and> ref \<noteq> []
          then
            let ref_entity = lower ref;
                ref_id = ''asset.entity.'' @ ref_entity
            in if ref_id \<in> node_ids
               then (case field_name field of
                       None \<Rightarrow> Inl (KeyError ''name'')
                     | Some fname \<Rightarrow>
                         Inr [\<lparr>source = entity_id, target = ref_id, relation = ''DEPENDS_ON'',
                               semantics = fname @ '' references '' @ ref_entity\<rparr>])
               else Inr []
          else Inr [])"

text \<open>The body of the loop over the entities: \<^verbatim>\<open>entity['name']\<close> is read first.\<close>

definition entity_edges :: "string set \<Rightarrow> Entity \<Rightarrow> py_error + Edge list" where
  "entity_edges node_ids entity =
     (case entity_name entity of
        None \<Rightarrow> Inl (KeyError ''name'')
      | Some name \<Rightarrow>
          let entity_id = ''asset.entity.'' @ lower name
          in collect (field_edge node_ids entity_id) (get_or (entity_fields entity) []))"

text \<open>
  The body of the loops over \<^verbatim>\<open>produces\<close> and \<^verbatim>\<open>consumes\<close>, which differ in the relation and in
  the verb of the \<^verbatim>\<open>semantics\<close> text.
\<close>

definition flow_edge :: "string set \<Rightarrow> string \<Rightarrow> string \<Rightarrow> string \<Rightarrow> string \<Rightarrow> Edge list" where
  "flow_edge node_ids wf_id rel verb item =
     (let entity_id = ''asset.entity.'' @ lower item
      in if entity_id \<in> node_ids
         then [\<lparr>source = wf_id, target = entity_id, relation = rel,
                 semantics = ''Workflow '' @ verb @ '' '' @ item\<rparr>]
         else [])"

definition workflow_edges :: "string set \<Rightarrow> Workflow \<Rightarrow> Edge list" where
  "workflow_edges node_ids workflow =
     (let wf_id = ''wf.process.''
            @ get_or (workflow_id workflow) (get_or (workflow_name workflow) ''unknown'')
      in concat (map (flow_edge node_ids wf_id ''PRODUCES'' ''produces'')
                   (get_or (workflow_produces workflow) []))
         @ concat (map (flow_edge node_ids wf_id ''CONSUMES'' ''consumes'')
                     (get_or (workflow_consumes workflow) [])))"

definition build_edges :: "Specs \<Rightarrow> Node list \<Rightarrow> py_error + Edge list" where
  "build_edges specs nodes =
     (let node_ids = set (map gnode_id nodes)
      in case collect (entity_edges node_ids) (specs_entities specs) of
           Inl e \<Rightarrow> Inl e
         | Inr entity_part \<Rightarrow>
             Inr (entity_part @ concat (map (workflow_edges node_ids) (specs_workflows specs))))"

text \<open>
  \<^verbatim>\<open>generate_graph\<close> up to the document it writes to \<^verbatim>\<open>graph.json\<close>; the time stamp is the
  parameter \<open>now\<close>. An exception raised on the way leaves the function before anything is
  written.
\<close>

definition generate_graph :: "string \<Rightarrow> Specs \<Rightarrow> py_error + Graph" where
  "generate_graph now specs =
     (case collect (\<lambda>entity. map_sum id (\<lambda>n. [n]) (entity_to_node entity)) (specs_entities specs) of
        Inl e \<Rightarrow> Inl e
      | Inr entity_nodes \<Rightarrow>
          let nodes = entity_nodes
                @ map algorithm_to_node (specs_algorithms specs)
                @ map workflow_to_node (specs_workflows specs)
          in (case build_edges specs nodes of
                Inl e \<Rightarrow> Inl e
              | Inr edges \<Rightarrow>
                  Inr \<lparr>version = ''2.0'', generated_at = now, graph_nodes = nodes,
                        graph_edges = edges\<rparr>))"

section \<open>services/graph\_builder.py: lineage over a persisted graph\<close>

text \<open>
  \<^verbatim>\<open>get_lineage\<close> reads the edges of the loaded document and runs the local function
  \<^verbatim>\<open>traverse\<close>, which shares \<^verbatim>\<open>visited\<close> and \<^verbatim>\<open>result\<close> with it:
  \<^verbatim>\<open>
        def traverse(current_id: str):
            if current_id in visited:
                return
            visited.add(current_id)
            for edge in graph.get('edges', []):
                if direction == 'upstream' and edge['target'] == current_id:
                    result.append(edge['source'])
                    traverse(edge['source'])
                elif direction == 'downstream' and edge['source'] == current_id:
                    result.append(edge['target'])
                    traverse(edge['target'])
  \<close>
  \<open>traverse\<close> is the function and \<open>traverse_edges\<close> its \<^verbatim>\<open>for\<close> loop, over the edges still to
  come at \<open>current_id\<close>. The state is \<^verbatim>\<open>visited\<close>, the list of the nodes in the order in which
  \<^verbatim>\<open>visited.add\<close> is run on them (which the code does not keep, and the functions never read),
  and \<^verbatim>\<open>result\<close>.
\<close>

text \<open>The ids that occur in a list of edges.\<close>

definition edge_ids :: "Edge list \<Rightarrow> string set" where
  "edge_ids edges = set (map source edges) \<union> set (map target edges)"

function traverse :: "Edge list \<Rightarrow> string \<Rightarrow> string \<Rightarrow> string set \<times> string list \<times> string list
      \<Rightarrow> string set \<times> string list \<times> string list"
  and traverse_edges :: "Edge list \<Rightarrow> string \<Rightarrow> string \<Rightarrow> Edge list \<Rightarrow> string set \<times> string list \<times> string list
      \<Rightarrow> string set \<times> string list \<times> string list" where
  "traverse edges direction current_id (visited, visit_order, result) =
     (if current_id \<in> visited then (visited, visit_order, result)
      else traverse_edges edges direction current_id edges
             (insert current_id visited, visit_order @ [current_id], result))"
| "traverse_edges edges direction current_id [] state = state"
| "traverse_edges edges direction current_id (edge # rest) (visited, visit_order, result) =
     (if direction = ''upstream'' \<and> target edge = current_id
      then traverse_edges edges direction current_id rest
             (traverse edges direction (source edge) (visited, visit_order, result @ [source edge]))
      else if direction = ''downstream'' \<and> source edge = current_id
      then traverse_edges edges direction current_id rest
             (traverse edges direction (target edge) (visited, visit_order, result @ [target edge]))
      else traverse_edges edges direction current_id rest (visited, visit_order, result))"
  by pat_completeness auto

text \<open>
  The recursion is nested: the loop goes on from the state the inner call returns. Where the
  functions terminate, \<^verbatim>\<open>visited\<close> only grows, which is what their termination needs.
\<close>

lemma traverse_visited_mono:
  "traverse_traverse_edges_dom (Inl (edges, direction, current_id, state)) \<Longrightarrow>
     fst state \<subseteq> fst (traverse edges direction current_id state)"
  "traverse_traverse_edges_dom (Inr (edges, direction, current_id, es, state)) \<Longrightarrow>
     fst state \<subseteq> fst (traverse_edges edges direction current_id es state)"
proof (induction edges direction current_id state and edges direction current_id es state
    rule: traverse_traverse_edges.pinduct)
  case (1 edges direction current_id visited visit_order result)
  then show ?case by (auto simp: traverse.psimps)
next
  case (2 edges direction current_id state)
  then show ?case by (simp add: traverse_edges.psimps)
next
  case (3 edges direction current_id edge rest visited visit_order result)
  note eq = traverse_edges.psimps(2)[OF 3(1)]
  show ?case
  proof (cases "direction = ''upstream'' \<and> target edge = current_id")
    case True
    let ?st = "traverse edges direction (source edge) (visited, visit_order, result @ [source edge])"
    have step: "traverse_edges edges direction current_id (edge # rest) (visited, visit_order, result)
        = traverse_edges edges direction current_id rest ?st"
      using True by (subst eq) simp
    have "visited \<subseteq> fst ?st"
      using 3(2)[OF True] by simp
    also note 3(3)[OF True]
    finally show ?thesis unfolding step by simp
  next
    case up: False
    show ?thesis
    proof (cases "direction = ''downstream'' \<and> source edge = current_id")
      case True
      let ?st = "traverse edges direction (target edge) (visited, visit_order, result @ [target edge])"
      have step: "traverse_edges edges direction current_id (edge # rest) (visited, visit_order, result)
          = traverse_edges edges direction current_id rest ?st"
        using up True by (subst eq) simp
      have "visited \<subseteq> fst ?st"
        using 3(4)[OF up True] by simp
      also note 3(5)[OF up True]
      finally show ?thesis unfolding step by simp
    next
      case False
      have step: "traverse_edges edges direction current_id (edge # rest) (visited, visit_order, result)
          = traverse_edges edges direction current_id rest (visited, visit_order, result)"
        by (subst eq) (simp only: up False if_False)
      show ?thesis using 3(6)[OF up False] unfolding step by simp
    qed
  qed
qed

definition traverse_measure ::
  "Edge list \<times> string \<times> string \<times> (string set \<times> string list \<times> string list)
   + Edge list \<times> string \<times> string \<times> Edge list \<times> (string set \<times> string list \<times> string list)
   \<Rightarrow> nat \<times> nat" where
  "traverse_measure call =
     (case call of
        Inl (edges, direction, current_id, (visited, visit_order, result)) \<Rightarrow>
          (card (insert current_id (edge_ids edges) - visited), 0)
      | Inr (edges, direction, current_id, es, (visited, visit_order, result)) \<Rightarrow>
          (card ((edge_ids edges \<union> edge_ids es) - visited), Suc (length es)))"

lemma finite_edge_ids: "finite (edge_ids edges)"
  by (simp add: edge_ids_def)

lemma card_diff_mono:
  "finite B \<Longrightarrow> A \<subseteq> B \<Longrightarrow> v \<subseteq> v' \<Longrightarrow> card (A - v') \<le> card (B - v)"
  by (intro card_mono) auto

termination traverse
proof (relation "inv_image (less_than <*lex*> less_than) traverse_measure", goal_cases)
  case 1
  show ?case by (intro wf_inv_image wf_lex_prod wf_less_than)
next
  case (2 edges direction current_id visited visit_order result)
  have "card (edge_ids edges - insert current_id visited)
          < card (insert current_id (edge_ids edges) - visited)"
    using 2 by (intro psubset_card_mono) (auto simp: finite_edge_ids)
  then show ?case by (simp add: traverse_measure_def)
next
  case (3 edges direction current_id edge rest visited visit_order result)
  have "card (insert (source edge) (edge_ids edges) - visited)
          \<le> card ((edge_ids edges \<union> edge_ids (edge # rest)) - visited)"
    by (intro card_mono) (auto simp: finite_edge_ids edge_ids_def)
  then show ?case
    unfolding inv_image_def traverse_measure_def by auto
next
  case (4 edges direction current_id edge rest visited visit_order result)
  obtain v' o' r' where st: "traverse edges direction (source edge) (visited, visit_order, result @ [source edge]) = (v', o', r')"
    by (metis prod_cases3)
  from traverse_visited_mono(1)[OF 4(2)] st have "visited \<subseteq> v'" by simp
  then have "card ((edge_ids edges \<union> edge_ids rest) - v')
          \<le> card ((edge_ids edges \<union> edge_ids (edge # rest)) - visited)"
    by (intro card_diff_mono) (auto simp: finite_edge_ids edge_ids_def)
  then show ?case
    unfolding inv_image_def traverse_measure_def st by auto
next
  case (5 edges direction current_id edge rest visited visit_order result)
  have "card (insert (target edge) (edge_ids edges) - visited)
          \<le> card ((edge_ids edges \<union> edge_ids (edge # rest)) - visited)"
    by (intro card_mono) (auto simp: finite_edge_ids edge_ids_def)
  then show ?case
    unfolding inv_image_def traverse_measure_def by auto
next
  case (6 edges direction current_id edge rest visited visit_order result)
  obtain v' o' r' where st: "traverse edges direction (target edge) (visited, visit_order, result @ [target edge]) = (v', o', r')"
    by (metis prod_cases3)
  from traverse_visited_mono(1)[OF 6(3)] st have "visited \<subseteq> v'" by simp
  then have "card ((edge_ids edges \<union> edge_ids rest) - v')
          \<le> card ((edge_ids edges \<union> edge_ids (edge # rest)) - visited)"
    by (intro card_diff_mono) (auto simp: finite_edge_ids edge_ids_def)
  then show ?case
    unfolding inv_image_def traverse_measure_def st by auto
next
  case (7 edges direction current_id edge rest visited visit_order result)
  have "card ((edge_ids edges \<union> edge_ids rest) - visited)
          \<le> card ((edge_ids edges \<union> edge_ids (edge # rest)) - visited)"
    by (intro card_mono) (auto simp: finite_edge_ids edge_ids_def)
  then show ?case
    unfolding inv_image_def traverse_measure_def by auto
qed

declare traverse.simps [simp del] traverse_edges.simps(2) [simp del]

definition get_lineage :: "Graph \<Rightarrow> string \<Rightarrow> string \<Rightarrow> string list" where
  "get_lineage graph node_id direction =
     (case traverse (graph_edges graph) direction node_id ({}, [], []) of
        (visited, visit_order, result) \<Rightarrow> result)"

text \<open>The order in which the call visits nodes: the second component of the final state.\<close>

definition get_lineage_visit_order :: "Graph \<Rightarrow> string \<Rightarrow> string \<Rightarrow> string list" where
  "get_lineage_visit_order graph node_id direction =
     (case traverse (graph_edges graph) direction node_id ({}, [], []) of
        (visited, visit_order, result) \<Rightarrow> visit_order)"

text \<open>
  Notions the properties of \<^verbatim>\<open>get_lineage\<close> are stated with. \<open>lineage_next\<close> is the test the loop
  body makes on one edge: the id it appends and descends into, if any. \<open>lineage_step\<close> is
  the relation "one edge further in the chosen direction", \<open>lineage_ends\<close> lists the far
  ends of the edges at one node in the order of the edge list, and \<open>first_occurrences\<close>
  keeps the first occurrence of every element of a list.
\<close>

definition lineage_next :: "string \<Rightarrow> string \<Rightarrow> Edge \<Rightarrow> string option" where
  "lineage_next direction current_id edge =
     (if direction = ''upstream'' \<and> target edge = current_id then Some (source edge)
      else if direction = ''downstream'' \<and> source edge = current_id then Some (target edge)
      else None)"

definition lineage_step :: "Edge list \<Rightarrow> string \<Rightarrow> (string \<times> string) set" where
  "lineage_step edges direction =
     {(current_id, x). \<exists>edge \<in> set edges. lineage_next direction current_id edge = Some x}"

definition lineage_ends :: "Edge list \<Rightarrow> string \<Rightarrow> string \<Rightarrow> string list" where
  "lineage_ends edges direction current_id = List.map_filter (lineage_next direction current_id) edges"

definition first_occurrences :: "'a list \<Rightarrow> 'a list" where
  "first_occurrences xs = rev (remdups (rev xs))"

text \<open>
  The list \<^verbatim>\<open>get_lineage\<close> is to return, stated on its own and not taken from the source: the
  edge ends followed, in the order followed. \<open>pending\<close> holds the edge ends still to follow,
  at first those at the start id in the order of the edge list. The first of them is followed
  and listed; when it is a node not visited before, it is visited and the edge ends at it are
  followed next, before the ones that were pending. \<open>get_lineage_edge_ends_followed\<close> below
  compares \<^verbatim>\<open>get_lineage\<close> with it.
\<close>

lemma lineage_ends_subset: "set (lineage_ends edges direction current_id) \<subseteq> edge_ids edges"
  by (auto simp: lineage_ends_def List.map_filter_def lineage_next_def edge_ids_def split: if_splits)

function edge_ends_followed :: "Edge list \<Rightarrow> string \<Rightarrow> string list \<Rightarrow> string set \<times> string list
    \<Rightarrow> string set \<times> string list" where
  "edge_ends_followed edges direction [] (visited, followed) = (visited, followed)"
| "edge_ends_followed edges direction (x # pending) (visited, followed) =
     (if x \<in> visited
      then edge_ends_followed edges direction pending (visited, followed @ [x])
      else edge_ends_followed edges direction (lineage_ends edges direction x @ pending)
             (insert x visited, followed @ [x]))"
  by pat_completeness auto
termination
proof (relation "inv_image (less_than <*lex*> less_than)
    (\<lambda>(edges, direction, pending, (visited, followed)).
       (card ((edge_ids edges \<union> set pending) - visited), length pending))", goal_cases)
  case 1
  show ?case by (intro wf_inv_image wf_lex_prod wf_less_than)
next
  case (2 edges direction x pending visited followed)
  have "card ((edge_ids edges \<union> set pending) - visited)
      \<le> card ((edge_ids edges \<union> set (x # pending)) - visited)"
    by (intro card_mono) (auto simp: finite_edge_ids)
  then show ?case by auto
next
  case (3 edges direction x pending visited followed)
  have "card ((edge_ids edges \<union> set (lineage_ends edges direction x @ pending)) - insert x visited)
      < card ((edge_ids edges \<union> set (x # pending)) - visited)"
    using 3 lineage_ends_subset[of edges direction x]
    by (intro psubset_card_mono) (auto simp: finite_edge_ids)
  then show ?case by auto
qed

section \<open>Loop invariants\<close>

text \<open>
  The invariants the proofs below carry through the loops. For \<^verbatim>\<open>get_change_order\<close>:
  \<open>kahn_graph\<close> describes the \<^verbatim>\<open>graph\<close> dict after the build loops (each id of the input maps to
  the ids that depend on it, in input order); \<open>kahn_inv\<close> holds at the head of the \<^verbatim>\<open>while\<close>
  loop (output and queue are disjoint and without repetition, the count of an id is the number
  of its in-set dependencies not yet output, an id is in the output or the queue exactly when
  all of them are output, and the output is in dependency order); \<open>fifo_inv\<close> says that
  output followed by queue is in first-in-first-out order and that nothing in them is
  released later than now.
\<close>

definition kahn_graph :: "DependencyGraph \<Rightarrow> string list \<Rightarrow> (string \<times> string list) list \<Rightarrow> bool" where
  "kahn_graph nodes ids graph =
     (\<forall>d. map_of graph d =
        (if d \<in> set ids then Some (filter (\<lambda>x. d \<in> in_set_dependencies nodes ids x) ids) else None))"

definition kahn_inv :: "DependencyGraph \<Rightarrow> string list \<Rightarrow> (string \<times> int) list \<Rightarrow> string list
    \<Rightarrow> string list \<Rightarrow> bool" where
  "kahn_inv nodes ids in_degree queue result =
     (set (result @ queue) \<subseteq> set ids \<and> distinct (result @ queue)
      \<and> (\<forall>x \<in> set ids. map_of in_degree x
            = Some (int (card (in_set_dependencies nodes ids x - set result))))
      \<and> (\<forall>x \<in> set ids. (x \<in> set (result @ queue)) = (in_set_dependencies nodes ids x \<subseteq> set result))
      \<and> (\<forall>pre x post. result = pre @ x # post \<longrightarrow> in_set_dependencies nodes ids x \<subseteq> set pre))"

definition fifo_inv :: "DependencyGraph \<Rightarrow> string list \<Rightarrow> string list \<Rightarrow> string list \<Rightarrow> bool" where
  "fifo_inv nodes ids queue result =
     (sorted_wrt (fifo_before nodes ids (result @ queue)) (result @ queue)
      \<and> (\<forall>x \<in> set (result @ queue). release_time nodes ids (result @ queue) x \<le> length result))"

text \<open>
  For \<^verbatim>\<open>get_lineage\<close>: \<open>lineage_inv\<close> relates the visit order to the result (the visited nodes
  are the start id followed by the first occurrences of the other ids of the result);
  \<open>lineage_sound\<close> says that everything visited or listed is reachable from the start id;
  \<open>lineage_post\<close> relates the states before and after a call (both components only grow, and
  every edge at a node visited during the call has its far end visited and listed);
  \<open>lineage_count\<close> says that the entries added to the result are the given ones and the
  edge ends at the nodes added to the visit order. \<open>lineage_view\<close> is a state without its
  visit order.
\<close>

definition lineage_inv :: "string \<Rightarrow> string set \<times> string list \<times> string list \<Rightarrow> bool" where
  "lineage_inv start state =
     (case state of (visited, visit_order, result) \<Rightarrow>
        set visit_order = visited
        \<and> visit_order = start # filter (\<lambda>y. y \<noteq> start) (first_occurrences result))"

definition lineage_view :: "string set \<times> string list \<times> string list \<Rightarrow> string set \<times> string list" where
  "lineage_view state = (fst state, snd (snd state))"

definition lineage_sound :: "Edge list \<Rightarrow> string \<Rightarrow> string \<Rightarrow> string set \<times> string list \<times> string list \<Rightarrow> bool" where
  "lineage_sound edges direction start state =
     (fst state \<subseteq> (lineage_step edges direction)\<^sup>* `` {start}
      \<and> set (snd (snd state)) \<subseteq> (lineage_step edges direction)\<^sup>+ `` {start})"

definition lineage_post :: "Edge list \<Rightarrow> string \<Rightarrow> string set \<times> string list \<times> string list
    \<Rightarrow> string set \<times> string list \<times> string list \<Rightarrow> bool" where
  "lineage_post edges direction state state' =
     (fst state \<subseteq> fst state' \<and> set (snd (snd state)) \<subseteq> set (snd (snd state'))
      \<and> (\<forall>n \<in> fst state' - fst state. \<forall>m. (n, m) \<in> lineage_step edges direction
            \<longrightarrow> m \<in> fst state' \<and> m \<in> set (snd (snd state'))))"

definition lineage_count :: "Edge list \<Rightarrow> string \<Rightarrow> string list
    \<Rightarrow> string set \<times> string list \<times> string list \<Rightarrow> string set \<times> string list \<times> string list \<Rightarrow> bool" where
  "lineage_count edges direction extra state state' =
     (\<exists>new. fst (snd state') = fst (snd state) @ new
        \<and> mset (snd (snd state')) =
            mset (snd (snd state)) + mset extra + mset (concat (map (lineage_ends edges direction) new)))"

section \<open>Example inputs\<close>

text \<open>
  Four entities in a chain: \<^verbatim>\<open>b\<close> declares a relationship to \<^verbatim>\<open>a\<close>, \<^verbatim>\<open>c\<close> to \<^verbatim>\<open>b\<close> and \<^verbatim>\<open>d\<close> to
  \<^verbatim>\<open>c\<close>. This is the index \<^verbatim>\<open>build_from_specs\<close> leaves for those declarations.
\<close>

definition chain_index :: DependencyGraph where
  "chain_index =
     [(''a'', \<lparr>ent_id = ''a'', ent_name = ''A'', dependencies = [], dependents = [''b'']\<rparr>),
      (''b'', \<lparr>ent_id = ''b'', ent_name = ''B'', dependencies = [''a''], dependents = [''c'']\<rparr>),
      (''c'', \<lparr>ent_id = ''c'', ent_name = ''C'', dependencies = [''b''], dependents = [''d'']\<rparr>),
      (''d'', \<lparr>ent_id = ''d'', ent_name = ''D'', dependencies = [''c''], dependents = []\<rparr>)]"

text \<open>Three entities on a dependency cycle: \<^verbatim>\<open>A\<close> depends on \<^verbatim>\<open>B\<close>, \<^verbatim>\<open>B\<close> on \<^verbatim>\<open>C\<close>, \<^verbatim>\<open>C\<close> on \<^verbatim>\<open>A\<close>.\<close>

definition cycle_index :: DependencyGraph where
  "cycle_index =
     [(''A'', \<lparr>ent_id = ''A'', ent_name = ''A'', dependencies = [''B''], dependents = [''C'']\<rparr>),
      (''B'', \<lparr>ent_id = ''B'', ent_name = ''B'', dependencies = [''C''], dependents = [''A'']\<rparr>),
      (''C'', \<lparr>ent_id = ''C'', ent_name = ''C'', dependencies = [''A''], dependents = [''B'']\<rparr>)]"

text \<open>
  Four entities: \<^verbatim>\<open>x\<close> depends on \<^verbatim>\<open>d1\<close> and \<^verbatim>\<open>d2\<close>, and \<^verbatim>\<open>d2\<close> on \<^verbatim>\<open>e\<close>.
\<close>

definition dup_index :: DependencyGraph where
  "dup_index =
     [(''d1'', \<lparr>ent_id = ''d1'', ent_name = ''D1'', dependencies = [], dependents = [''x'']\<rparr>),
      (''e'', \<lparr>ent_id = ''e'', ent_name = ''E'', dependencies = [], dependents = [''d2'']\<rparr>),
      (''d2'', \<lparr>ent_id = ''d2'', ent_name = ''D2'', dependencies = [''e''], dependents = [''x'']\<rparr>),
      (''x'', \<lparr>ent_id = ''x'', ent_name = ''X'', dependencies = [''d1'', ''d2''], dependents = []\<rparr>)]"

text \<open>
  Three entities: \<^verbatim>\<open>x\<close> depends on \<^verbatim>\<open>y\<close> and \<^verbatim>\<open>d\<close>, and \<^verbatim>\<open>y\<close> on \<^verbatim>\<open>x\<close>.
\<close>

definition dup_cycle_index :: DependencyGraph where
  "dup_cycle_index =
     [(''x'', \<lparr>ent_id = ''x'', ent_name = ''X'', dependencies = [''y'', ''d''], dependents = [''y'']\<rparr>),
      (''y'', \<lparr>ent_id = ''y'', ent_name = ''Y'', dependencies = [''x''], dependents = [''x'']\<rparr>),
      (''d'', \<lparr>ent_id = ''d'', ent_name = ''D'', dependencies = [], dependents = [''x'']\<rparr>)]"

text \<open>The two entities of the specification's scenario: \<^verbatim>\<open>order\<close> depends on \<^verbatim>\<open>customer\<close>.\<close>

definition order_customer_index :: DependencyGraph where
  "order_customer_index =
     [(''order'', \<lparr>ent_id = ''order'', ent_name = ''Order'', dependencies = [''customer''], dependents = []\<rparr>),
      (''customer'', \<lparr>ent_id = ''customer'', ent_name = ''Customer'', dependencies = [], dependents = [''order'']\<rparr>)]"

text \<open>
  Spec records for the compiler: two entities, \<^verbatim>\<open>Order\<close> with a reference to \<^verbatim>\<open>Customer\<close> and one
  to \<^verbatim>\<open>Product\<close>, for which there is no record; an entity record without a name; a workflow that
  produces \<^verbatim>\<open>Invoice\<close> (no such record) and \<^verbatim>\<open>Order\<close> and consumes \<^verbatim>\<open>Customer\<close>.
\<close>

definition customer_entity :: Entity where
  "customer_entity = \<lparr>entity_name = Some ''Customer'', entity_owner = None, entity_criticality = None,
     entity_fields = Some [\<lparr>field_name = Some ''id'', field_type = Some ''uuid'', field_references = None\<rparr>]\<rparr>"

definition order_entity :: Entity where
  "order_entity = \<lparr>entity_name = Some ''Order'', entity_owner = Some ''Sales'', entity_criticality = None,
     entity_fields = Some [\<lparr>field_name = Some ''customer_id'', field_type = Some ''uuid'', field_references = Some ''Customer''\<rparr>,
       \<lparr>field_name = Some ''product_id'', field_type = Some ''uuid'', field_references = Some ''Product''\<rparr>]\<rparr>"

definition nameless_entity :: Entity where
  "nameless_entity = \<lparr>entity_name = None, entity_owner = Some ''Ops'', entity_criticality = None, entity_fields = None\<rparr>"

definition billing_workflow :: Workflow where
  "billing_workflow = \<lparr>workflow_id = Some ''billing'', workflow_name = Some ''Billing'', workflow_owner = None,
     workflow_criticality = None, workflow_sla = None, workflow_produces = Some [''Invoice'', ''Order''],
     workflow_consumes = Some [''Customer'']\<rparr>"

definition shop_specs :: Specs where
  "shop_specs = \<lparr>specs_entities = [customer_entity, order_entity], specs_algorithms = [], specs_workflows = [billing_workflow]\<rparr>"

definition broken_specs :: Specs where
  "broken_specs = \<lparr>specs_entities = [customer_entity, nameless_entity, order_entity], specs_algorithms = [], specs_workflows = [billing_workflow]\<rparr>"

text \<open>An algorithm record and a workflow record with no key at all.\<close>

definition anonymous_algorithm :: Algorithm where
  "anonymous_algorithm = \<lparr>algorithm_id = None, algorithm_name = None, algorithm_owner = None, algorithm_criticality = None\<rparr>"

definition anonymous_workflow :: Workflow where
  "anonymous_workflow = \<lparr>workflow_id = None, workflow_name = None, workflow_owner = None,
     workflow_criticality = None, workflow_sla = None, workflow_produces = None, workflow_consumes = None\<rparr>"

text \<open>The document expected for \<open>shop_specs\<close>.\<close>

definition shop_graph :: Graph where
  "shop_graph = \<lparr>version = ''2.0'', generated_at = ''2026-01-01T00:00:00Z'',
        graph_nodes =
          [\<lparr>gnode_id = ''asset.entity.customer'', gnode_type = ''ASSET'',
              label = ''Customer'',
              metadata =
                [(''owner'', Str ''System''),
                 (''business_criticality'', Str ''MEDIUM''),
                 (''fields_count'', Num 1)],
              status_source = Some ''hook.entity.customer_status''\<rparr>,
           \<lparr>gnode_id = ''asset.entity.order'', gnode_type = ''ASSET'',
              label = ''Order'',
              metadata =
                [(''owner'', Str ''Sales''),
                 (''business_criticality'', Str ''MEDIUM''),
                 (''fields_count'', Num 2)],
              status_source = Some ''hook.entity.order_status''\<rparr>,
           \<lparr>gnode_id = ''wf.process.billing'', gnode_type = ''WORKFLOW'',
              label = ''Billing'',
              metadata =
                [(''owner'', Str ''System''),
                 (''business_criticality'', Str ''HIGH''),
                 (''sla'', Str ''None'')],
              status_source = None\<rparr>],
        graph_edges =
          [\<lparr>source = ''asset.entity.order'',
              target = ''asset.entity.customer'', relation = ''DEPENDS_ON'',
              semantics = ''customer_id references customer''\<rparr>,
           \<lparr>source = ''wf.process.billing'',
              target = ''asset.entity.order'', relation = ''PRODUCES'',
              semantics = ''Workflow produces Order''\<rparr>,
           \<lparr>source = ''wf.process.billing'',
              target = ''asset.entity.customer'', relation = ''CONSUMES'',
              semantics = ''Workflow consumes Customer''\<rparr>]\<rparr>"

text \<open>
  Persisted graphs for the lineage queries (nodes left out, the queries read the edges only):
  edges \<^verbatim>\<open>Y->X\<close>, \<^verbatim>\<open>Z->Y\<close>; edges \<^verbatim>\<open>Y->X\<close>, \<^verbatim>\<open>Z->X\<close>, \<^verbatim>\<open>Z->Y\<close>; and the cycle \<^verbatim>\<open>Y->X\<close>, \<^verbatim>\<open>X->Y\<close>.
\<close>

definition two_hop_graph :: Graph where
  "two_hop_graph = \<lparr>version = ''2.0'', generated_at = ''2026-01-01T00:00:00Z'', graph_nodes = [],
     graph_edges =
       [\<lparr>source = ''Y'', target = ''X'', relation = ''DEPENDS_ON'', semantics = ''y references x''\<rparr>,
        \<lparr>source = ''Z'', target = ''Y'', relation = ''DEPENDS_ON'', semantics = ''z references y''\<rparr>]\<rparr>"

definition diamond_graph :: Graph where
  "diamond_graph = \<lparr>version = ''2.0'', generated_at = ''2026-01-01T00:00:00Z'', graph_nodes = [],
     graph_edges =
       [\<lparr>source = ''Y'', target = ''X'', relation = ''DEPENDS_ON'', semantics = ''y references x''\<rparr>,
        \<lparr>source = ''Z'', target = ''X'', relation = ''DEPENDS_ON'', semantics = ''z references x''\<rparr>,
        \<lparr>source = ''Z'', target = ''Y'', relation = ''DEPENDS_ON'', semantics = ''z references y''\<rparr>]\<rparr>"

definition loop_graph :: Graph where
  "loop_graph = \<lparr>version = ''2.0'', generated_at = ''2026-01-01T00:00:00Z'', graph_nodes = [],
     graph_edges =
       [\<lparr>source = ''Y'', target = ''X'', relation = ''DEPENDS_ON'', semantics = ''y references x''\<rparr>,
        \<lparr>source = ''X'', target = ''Y'', relation = ''DEPENDS_ON'', semantics = ''x references y''\<rparr>]\<rparr>"

section \<open>Properties of the dependency index\<close>

subsection \<open>The worklist loop\<close>

lemma closure_loop_finite:
  "finite visited \<Longrightarrow> finite (fst (closure_loop adj nodes (visited, expanded) to_visit))"
proof (induction adj nodes "(visited, expanded)" to_visit arbitrary: visited expanded
    rule: closure_loop.induct)
  case (1 adj nodes visited expanded to_visit)
  show ?case
    using 1 by (subst closure_loop.simps) (auto simp: Let_def split: option.splits)
qed

lemma closure_loop_covers:
  "visited \<union> set to_visit \<subseteq> fst (closure_loop adj nodes (visited, expanded) to_visit)"
proof (induction adj nodes "(visited, expanded)" to_visit arbitrary: visited expanded
    rule: closure_loop.induct)
  case (1 adj nodes visited expanded to_visit)
  show ?case
  proof (cases "to_visit = []")
    case True
    then show ?thesis by (subst closure_loop.simps) simp
  next
    case False
    then have "butlast to_visit @ [last to_visit] = to_visit" by simp
    then have tv: "set to_visit = insert (last to_visit) (set (butlast to_visit))"
      by (metis Un_insert_right list.simps(15) set_append sup_bot.right_neutral empty_set)
    show ?thesis
      using 1 False unfolding tv
      by (subst closure_loop.simps) (auto simp: Let_def split: option.splits)
  qed
qed

text \<open>\<^verbatim>\<open>visited.remove(entity_id)\<close> finds its element.\<close>

lemma closure_loop_start_visited:
  "entity_id \<in> fst (closure_loop adj nodes ({}, []) [entity_id])"
  using closure_loop_covers[of "{}" "[entity_id]" adj nodes "[]"] by simp

lemma closure_loop_log:
  "set expanded = visited \<Longrightarrow> distinct expanded \<Longrightarrow>
   set (snd (closure_loop adj nodes (visited, expanded) to_visit))
     = fst (closure_loop adj nodes (visited, expanded) to_visit)
   \<and> distinct (snd (closure_loop adj nodes (visited, expanded) to_visit))"
proof (induction adj nodes "(visited, expanded)" to_visit arbitrary: visited expanded
    rule: closure_loop.induct)
  case (1 adj nodes visited expanded to_visit)
  show ?case
    using 1 by (subst (1 2 3) closure_loop.simps) (auto simp: Let_def split: option.splits)
qed

lemma finite_get_dependents: "finite (get_dependents nodes entity_id)"
  by (simp add: get_dependents_def closure_loop_finite)

lemma finite_get_impact: "finite (get_impact nodes entity_id)"
  by (simp add: get_impact_def finite_get_dependents)

lemma get_impact_self: "entity_id \<in> get_impact nodes entity_id"
  by (simp add: get_impact_def)

lemma get_impact_unknown: "map_of nodes entity_id = None \<Longrightarrow> get_impact nodes entity_id = {entity_id}"
  by (simp add: get_impact_def get_dependents_def)

subsection \<open>The scenarios of the specification\<close>

lemma cycle_get_dependencies: "get_dependencies cycle_index ''A'' = {''B'', ''C''}"
  by code_simp

lemma cycle_get_dependencies_expanded:
  "get_dependencies_expanded cycle_index ''A'' = [''A'', ''B'', ''C'']"
  by code_simp

lemma chain_get_dependents: "get_dependents chain_index ''a'' = {''b'', ''c'', ''d''}"
  by code_simp

subsection \<open>The queries\<close>

text \<open>
  C2. An id is never a member of its own \<^verbatim>\<open>get_dependencies\<close> or \<^verbatim>\<open>get_dependents\<close>, whatever
  the index, cycles through the id included. Both functions are total (the worklist loop
  \<open>closure_loop\<close> is defined with a termination proof over every index and every state),
  no node is expanded twice, the result is the set of expanded nodes less the id itself, and
  an id that is not in the index gets the empty set.
\<close>

theorem C2_closure_excludes_self:
  "entity_id \<notin> get_dependencies nodes entity_id
   \<and> entity_id \<notin> get_dependents nodes entity_id
   \<and> distinct (get_dependencies_expanded nodes entity_id)
   \<and> distinct (get_dependents_expanded nodes entity_id)
   \<and> get_dependencies nodes entity_id = set (get_dependencies_expanded nodes entity_id) - {entity_id}
   \<and> get_dependents nodes entity_id = set (get_dependents_expanded nodes entity_id) - {entity_id}
   \<and> (map_of nodes entity_id = None \<longrightarrow>
        get_dependencies nodes entity_id = {} \<and> get_dependents nodes entity_id = {})"
  using closure_loop_log[of "[]" "{}" dependencies nodes "[entity_id]"]
    closure_loop_log[of "[]" "{}" dependents nodes "[entity_id]"]
  by (simp add: get_dependencies_def get_dependents_def get_dependencies_expanded_def
      get_dependents_expanded_def)

theorem C2_closure_excludes_self_witness:
  "map_of chain_index ''ghost'' = None
   \<and> get_dependencies chain_index ''ghost'' = {} \<and> get_dependents chain_index ''ghost'' = {}
   \<and> map_of cycle_index ''A'' \<noteq> None
   \<and> ''A'' \<notin> get_dependencies cycle_index ''A'' \<and> ''A'' \<notin> get_dependents cycle_index ''A''"
proof -
  have g: "map_of chain_index ''ghost'' = None" by (simp add: chain_index_def)
  have a: "map_of cycle_index ''A'' \<noteq> None" by (simp add: cycle_index_def)
  show ?thesis
    using g a C2_closure_excludes_self[of "''ghost''" chain_index]
      C2_closure_excludes_self[of "''A''" cycle_index]
    by blast
qed

text \<open>
  C4. \<^verbatim>\<open>get_impact(id)\<close> is \<open>{id}\<close> together with \<^verbatim>\<open>get_dependents(id)\<close>, and so contains
  \<open>id\<close>, for every id, in the index or not.
\<close>

theorem C4_get_impact_contains_self:
  "entity_id \<in> get_impact nodes entity_id
   \<and> get_impact nodes entity_id = {entity_id} \<union> get_dependents nodes entity_id"
  by (simp add: get_impact_def)

text \<open>
  C5. \<^verbatim>\<open>can_parallelize\<close> is symmetric in its two ids, and false on a pair of equal ids,
  in the index or not.
\<close>

theorem C5_can_parallelize_symmetric:
  "can_parallelize nodes a b = can_parallelize nodes b a \<and> \<not> can_parallelize nodes a a"
proof -
  have "card (get_impact nodes a) \<noteq> 0"
    using finite_get_impact[of nodes a] get_impact_self[of a nodes] by auto
  then show ?thesis
    by (simp add: can_parallelize_def Let_def Int_commute)
qed

text \<open>
  C8, as amended. For every id that is in the index, \<^verbatim>\<open>analyze_change_risk(id)\<close> is \<^verbatim>\<open>low\<close>
  when the impact set has exactly one element, \<^verbatim>\<open>medium\<close> when it has two or three, and
  \<^verbatim>\<open>high\<close> when it has more than three; the impact set is never empty.
\<close>

theorem C8_risk_by_impact_size:
  assumes "map_of nodes entity_id \<noteq> None"
  shows "1 \<le> card (get_impact nodes entity_id)
         \<and> analyze_change_risk nodes entity_id =
             (if card (get_impact nodes entity_id) = 1 then ''low''
              else if 2 \<le> card (get_impact nodes entity_id) \<and> card (get_impact nodes entity_id) \<le> 3
                   then ''medium''
              else ''high'')"
proof -
  have "card (get_impact nodes entity_id) \<noteq> 0"
    using finite_get_impact[of nodes entity_id] get_impact_self[of entity_id nodes] by auto
  then show ?thesis
    using assms by (auto simp: analyze_change_risk_def Let_def)
qed

theorem C8_risk_by_impact_size_witness:
  "map_of chain_index ''d'' \<noteq> None \<and> card (get_impact chain_index ''d'') = 1
     \<and> analyze_change_risk chain_index ''d'' = ''low''
   \<and> map_of chain_index ''b'' \<noteq> None \<and> card (get_impact chain_index ''b'') = 3
     \<and> analyze_change_risk chain_index ''b'' = ''medium''
   \<and> map_of chain_index ''a'' \<noteq> None \<and> card (get_impact chain_index ''a'') = 4
     \<and> analyze_change_risk chain_index ''a'' = ''high''"
proof -
  have d: "map_of chain_index ''d'' \<noteq> None" and b: "map_of chain_index ''b'' \<noteq> None"
    and a: "map_of chain_index ''a'' \<noteq> None"
    by (simp_all add: chain_index_def)
  have cd: "card (get_impact chain_index ''d'') = 1" by code_simp
  have cb: "card (get_impact chain_index ''b'') = 3" by code_simp
  have ca: "card (get_impact chain_index ''a'') = 4" by code_simp
  show ?thesis
    using C8_risk_by_impact_size[OF d] C8_risk_by_impact_size[OF b] C8_risk_by_impact_size[OF a]
      d b a
    unfolding cd cb ca by simp
qed

text \<open>
  C8 as stated fails at an id that is not in the index: its impact set has exactly one
  element, and the answer is not \<^verbatim>\<open>low\<close>.
\<close>

theorem C8_unknown_id_counterexample:
  "card (get_impact chain_index ''ghost'') = 1 \<and> analyze_change_risk chain_index ''ghost'' \<noteq> ''low''"
  by (simp add: get_impact_def get_dependents_def analyze_change_risk_def chain_index_def)

text \<open>
  C9. For an id that is not in the index \<^verbatim>\<open>analyze_change_risk\<close> returns \<^verbatim>\<open>unknown\<close>, which is
  none of \<^verbatim>\<open>low\<close>, \<^verbatim>\<open>medium\<close>, \<^verbatim>\<open>high\<close>, although the impact set of that id has one element.
\<close>

theorem C9_unknown_id_risk:
  assumes "map_of nodes entity_id = None"
  shows "analyze_change_risk nodes entity_id = ''unknown''
         \<and> analyze_change_risk nodes entity_id \<notin> {''low'', ''medium'', ''high''}
         \<and> card (get_impact nodes entity_id) = 1"
  using assms by (simp add: analyze_change_risk_def get_impact_unknown)

theorem C9_unknown_id_risk_witness:
  "map_of chain_index ''ghost'' = None \<and> analyze_change_risk chain_index ''ghost'' = ''unknown''"
proof -
  have h: "map_of chain_index ''ghost'' = None" by (simp add: chain_index_def)
  show ?thesis using h C9_unknown_id_risk[OF h] by simp
qed

section \<open>Properties of the change order\<close>

lemma map_of_dict_fromkeys:
  "map_of (dict_fromkeys keys v) k = (if k \<in> set keys then Some v else None)"
proof -
  have "map_of (fold (\<lambda>k d. AList.update k v d) keys d) k
      = (if k \<in> set keys then Some v else map_of d k)" for d
    by (induction keys arbitrary: d) (auto simp: update_conv')
  then show ?thesis by (simp add: dict_fromkeys_def)
qed

lemma add_dependencies_result:
  assumes "\<forall>d \<in> set ids. map_of graph d \<noteq> None" "map_of in_degree entity \<noteq> None"
  shows "\<exists>graph' in_degree'.
      add_dependencies ids entity deps (graph, in_degree) = Inr (graph', in_degree')
      \<and> (\<forall>d. map_of graph' d =
            map_option (\<lambda>l. l @ replicate (if d \<in> set ids then count_list deps d else 0) entity)
              (map_of graph d))
      \<and> (\<forall>k. map_of in_degree' k =
            (if k = entity
             then map_option (\<lambda>n. n + int (length (filter (\<lambda>d. d \<in> set ids) deps))) (map_of in_degree k)
             else map_of in_degree k))"
  using assms
proof (induction deps arbitrary: graph in_degree)
  case Nil
  show ?case by (simp add: option.map_ident)
next
  case (Cons dep deps)
  show ?case
  proof (cases "dep \<in> set ids")
    case False
    then have c: "(if d \<in> set ids then count_list (dep # deps) d else 0)
        = (if d \<in> set ids then count_list deps d else 0)" for d
      by auto
    have a: "add_dependencies ids entity (dep # deps) (graph, in_degree)
        = add_dependencies ids entity deps (graph, in_degree)"
      using False by simp
    have f: "filter (\<lambda>d. d \<in> set ids) (dep # deps) = filter (\<lambda>d. d \<in> set ids) deps"
      using False by simp
    show ?thesis
      unfolding a c f by (rule Cons.IH[OF Cons.prems])
  next
    case True
    with Cons.prems obtain l n where l: "map_of graph dep = Some l" and n: "map_of in_degree entity = Some n"
      by auto
    let ?g = "AList.update dep (l @ [entity]) graph"
    let ?d = "AList.update entity (n + 1) in_degree"
    have "\<forall>d \<in> set ids. map_of ?g d \<noteq> None" "map_of ?d entity \<noteq> None"
      using Cons.prems by (simp_all add: update_conv')
    from Cons.IH[OF this] obtain graph' in_degree' where
      r: "add_dependencies ids entity deps (?g, ?d) = Inr (graph', in_degree')"
      and g: "\<And>d. map_of graph' d =
            map_option (\<lambda>l. l @ replicate (if d \<in> set ids then count_list deps d else 0) entity)
              (map_of ?g d)"
      and d: "\<And>k. map_of in_degree' k =
            (if k = entity
             then map_option (\<lambda>n. n + int (length (filter (\<lambda>d. d \<in> set ids) deps))) (map_of ?d k)
             else map_of ?d k)"
      by blast
    have 1: "add_dependencies ids entity (dep # deps) (graph, in_degree) = Inr (graph', in_degree')"
      using True l n r by simp
    have 2: "map_of graph' d =
            map_option (\<lambda>l. l @ replicate (if d \<in> set ids then count_list (dep # deps) d else 0) entity)
              (map_of graph d)" for d
      unfolding g using True l
      by (cases "d = dep") (simp_all add: update_conv' replicate_append_same)
    have 3: "map_of in_degree' k =
            (if k = entity
             then map_option (\<lambda>n. n + int (length (filter (\<lambda>d. d \<in> set ids) (dep # deps)))) (map_of in_degree k)
             else map_of in_degree k)" for k
      unfolding d using True n by (simp add: update_conv')
    from 1 2 3 show ?thesis by blast
  qed
qed

lemma build_graph_result:
  assumes "\<forall>d \<in> set ids. map_of graph d \<noteq> None" "\<forall>x \<in> set rest. map_of in_degree x \<noteq> None"
    "distinct rest"
  shows "\<exists>graph' in_degree'.
      build_graph nodes ids rest (graph, in_degree) = Inr (graph', in_degree')
      \<and> (\<forall>d. map_of graph' d =
            map_option (\<lambda>l. l @ concat (map (\<lambda>x. replicate
                (if d \<in> set ids then count_list (entity_dependencies nodes x) d else 0) x) rest))
              (map_of graph d))
      \<and> (\<forall>k. map_of in_degree' k =
            (if k \<in> set rest
             then map_option (\<lambda>n. n + int (length (filter (\<lambda>d. d \<in> set ids) (entity_dependencies nodes k))))
                    (map_of in_degree k)
             else map_of in_degree k))"
  using assms
proof (induction rest arbitrary: graph in_degree)
  case Nil
  show ?case by (simp add: option.map_ident)
next
  case (Cons x rest)
  from add_dependencies_result[of ids graph in_degree x "entity_dependencies nodes x"] Cons.prems
  obtain g1 d1 where
    a: "add_dependencies ids x (entity_dependencies nodes x) (graph, in_degree) = Inr (g1, d1)"
    and g1: "\<And>d. map_of g1 d =
            map_option (\<lambda>l. l @ replicate (if d \<in> set ids then count_list (entity_dependencies nodes x) d else 0) x)
              (map_of graph d)"
    and d1: "\<And>k. map_of d1 k =
            (if k = x
             then map_option (\<lambda>n. n + int (length (filter (\<lambda>d. d \<in> set ids) (entity_dependencies nodes x)))) (map_of in_degree k)
             else map_of in_degree k)"
    by auto
  have step: "build_graph nodes ids (x # rest) (graph, in_degree) = build_graph nodes ids rest (g1, d1)"
  proof (cases "map_of nodes x")
    case None
    then have "entity_dependencies nodes x = []" by (simp add: entity_dependencies_def)
    with a have "(g1, d1) = (graph, in_degree)" by simp
    with None show ?thesis by simp
  next
    case (Some node)
    then have "entity_dependencies nodes x = dependencies node" by (simp add: entity_dependencies_def)
    with a Some show ?thesis by simp
  qed
  have "\<forall>d \<in> set ids. map_of g1 d \<noteq> None" "\<forall>y \<in> set rest. map_of d1 y \<noteq> None" "distinct rest"
    using Cons.prems by (auto simp: g1 d1)
  from Cons.IH[OF this] obtain graph' in_degree' where
    r: "build_graph nodes ids rest (g1, d1) = Inr (graph', in_degree')"
    and g: "\<And>d. map_of graph' d =
            map_option (\<lambda>l. l @ concat (map (\<lambda>x. replicate
                (if d \<in> set ids then count_list (entity_dependencies nodes x) d else 0) x) rest))
              (map_of g1 d)"
    and d: "\<And>k. map_of in_degree' k =
            (if k \<in> set rest
             then map_option (\<lambda>n. n + int (length (filter (\<lambda>d. d \<in> set ids) (entity_dependencies nodes k))))
                    (map_of d1 k)
             else map_of d1 k)"
    by blast
  have 2: "map_of graph' d =
            map_option (\<lambda>l. l @ concat (map (\<lambda>x. replicate
                (if d \<in> set ids then count_list (entity_dependencies nodes x) d else 0) x) (x # rest)))
              (map_of graph d)" for d
    unfolding g g1 by (simp add: option.map_comp comp_def)
  have 3: "map_of in_degree' k =
            (if k \<in> set (x # rest)
             then map_option (\<lambda>n. n + int (length (filter (\<lambda>d. d \<in> set ids) (entity_dependencies nodes k))))
                    (map_of in_degree k)
             else map_of in_degree k)" for k
    unfolding d d1 using Cons.prems(3) by auto
  from r 2 3 show ?case unfolding step by blast
qed

lemma count_list_distinct: "distinct xs \<Longrightarrow> count_list xs x = (if x \<in> set xs then 1 else 0)"
  by (induction xs) auto

lemma concat_replicate_filter:
  "(\<And>x. n x \<le> 1) \<Longrightarrow> concat (map (\<lambda>x. replicate (n x) x) xs) = filter (\<lambda>x. n x = 1) xs"
proof (induction xs)
  case Nil
  show ?case by simp
next
  case (Cons x xs)
  have "n x = 0 \<or> n x = 1" using Cons.prems[of x] by linarith
  with Cons show ?case by auto
qed

lemma set_valued_distinct: "set_valued nodes \<Longrightarrow> distinct (entity_dependencies nodes x)"
  by (auto simp: set_valued_def entity_dependencies_def list_all_iff split: option.splits dest!: map_of_SomeD)

lemma build_graph_initial:
  assumes "distinct ids" "set_valued nodes"
  shows "\<exists>graph in_degree.
      build_graph nodes ids ids (dict_fromkeys ids [], dict_fromkeys ids 0) = Inr (graph, in_degree)
      \<and> (\<forall>d. map_of graph d =
            (if d \<in> set ids then Some (filter (\<lambda>x. d \<in> in_set_dependencies nodes ids x) ids) else None))
      \<and> (\<forall>k. map_of in_degree k =
            (if k \<in> set ids then Some (int (card (in_set_dependencies nodes ids k))) else None))"
proof -
  from build_graph_result[of ids "dict_fromkeys ids []" ids "dict_fromkeys ids 0" nodes] assms(1)
  obtain graph in_degree where
    r: "build_graph nodes ids ids (dict_fromkeys ids [], dict_fromkeys ids 0) = Inr (graph, in_degree)"
    and g: "\<And>d. map_of graph d =
            map_option (\<lambda>l. l @ concat (map (\<lambda>x. replicate
                (if d \<in> set ids then count_list (entity_dependencies nodes x) d else 0) x) ids))
              (map_of (dict_fromkeys ids []) d)"
    and d: "\<And>k. map_of in_degree k =
            (if k \<in> set ids
             then map_option (\<lambda>n. n + int (length (filter (\<lambda>d. d \<in> set ids) (entity_dependencies nodes k))))
                    (map_of (dict_fromkeys ids 0) k)
             else map_of (dict_fromkeys ids 0) k)"
    by (auto simp: map_of_dict_fromkeys)
  have 2: "map_of graph d =
      (if d \<in> set ids then Some (filter (\<lambda>x. d \<in> in_set_dependencies nodes ids x) ids) else None)" for d
  proof (cases "d \<in> set ids")
    case False
    then show ?thesis by (simp add: g map_of_dict_fromkeys)
  next
    case True
    let ?n = "\<lambda>x. count_list (entity_dependencies nodes x) d"
    have le: "?n x \<le> 1" for x
      using set_valued_distinct[OF assms(2), of x] by (simp add: count_list_distinct)
    have "concat (map (\<lambda>x. replicate (?n x) x) ids) = filter (\<lambda>x. ?n x = 1) ids"
      by (rule concat_replicate_filter) (rule le)
    also have "\<dots> = filter (\<lambda>x. d \<in> in_set_dependencies nodes ids x) ids"
      using True set_valued_distinct[OF assms(2)]
      by (intro filter_cong) (auto simp: count_list_distinct in_set_dependencies_def)
    finally show ?thesis using True by (simp add: g map_of_dict_fromkeys)
  qed
  have 3: "map_of in_degree k =
      (if k \<in> set ids then Some (int (card (in_set_dependencies nodes ids k))) else None)" for k
  proof (cases "k \<in> set ids")
    case False
    then show ?thesis by (simp add: d map_of_dict_fromkeys)
  next
    case True
    have "distinct (filter (\<lambda>d. d \<in> set ids) (entity_dependencies nodes k))"
      using set_valued_distinct[OF assms(2), of k] by simp
    then have "length (filter (\<lambda>d. d \<in> set ids) (entity_dependencies nodes k))
        = card (set (filter (\<lambda>d. d \<in> set ids) (entity_dependencies nodes k)))"
      by (rule distinct_card[symmetric])
    also have "set (filter (\<lambda>d. d \<in> set ids) (entity_dependencies nodes k)) = in_set_dependencies nodes ids k"
      by (auto simp: in_set_dependencies_def)
    finally show ?thesis using True by (simp add: d map_of_dict_fromkeys)
  qed
  from r 2 3 show ?thesis by blast
qed

lemma initial_queue_result:
  "\<forall>e \<in> set es. map_of in_degree e \<noteq> None \<Longrightarrow>
   initial_queue in_degree es = Inr (filter (\<lambda>e. map_of in_degree e = Some 0) es)"
  by (induction es) auto

lemma release_dependents_result:
  assumes "distinct ds" "\<forall>x \<in> set ds. map_of in_degree x \<noteq> None"
  shows "\<exists>in_degree'.
      release_dependents ds (in_degree, queue)
        = Inr (in_degree', queue @ filter (\<lambda>x. map_of in_degree x = Some 1) ds)
      \<and> (\<forall>k. map_of in_degree' k =
            (if k \<in> set ds then map_option (\<lambda>n. n - 1) (map_of in_degree k) else map_of in_degree k))"
  using assms
proof (induction ds arbitrary: in_degree queue)
  case Nil
  show ?case by simp
next
  case (Cons x ds)
  from Cons.prems obtain n where n: "map_of in_degree x = Some n" by auto
  let ?d = "AList.update x (n - 1) in_degree"
  let ?q = "if n - 1 = 0 then queue @ [x] else queue"
  have pre: "distinct ds" "\<forall>y \<in> set ds. map_of ?d y \<noteq> None"
    using Cons.prems by (auto simp: update_conv')
  from Cons.IH[OF pre, of ?q] obtain in_degree' where
    r: "release_dependents ds (?d, ?q) = Inr (in_degree', ?q @ filter (\<lambda>y. map_of ?d y = Some 1) ds)"
    and d: "\<And>k. map_of in_degree' k =
            (if k \<in> set ds then map_option (\<lambda>n. n - 1) (map_of ?d k) else map_of ?d k)"
    by blast
  have f: "filter (\<lambda>y. map_of ?d y = Some 1) ds = filter (\<lambda>y. map_of in_degree y = Some 1) ds"
    using Cons.prems(1) by (intro filter_cong) (auto simp: update_conv')
  have 1: "release_dependents (x # ds) (in_degree, queue)
        = Inr (in_degree', queue @ filter (\<lambda>y. map_of in_degree y = Some 1) (x # ds))"
    using n r unfolding f by (auto simp: Let_def)
  have 2: "map_of in_degree' k =
            (if k \<in> set (x # ds) then map_option (\<lambda>n. n - 1) (map_of in_degree k) else map_of in_degree k)" for k
    unfolding d using n Cons.prems(1) by (auto simp: update_conv')
  from 1 2 show ?case by blast
qed

lemma finite_in_set_dependencies: "finite (in_set_dependencies nodes ids x)"
  by (simp add: in_set_dependencies_def)

lemma in_set_dependencies_subset: "in_set_dependencies nodes ids x \<subseteq> set ids"
  by (simp add: in_set_dependencies_def)

lemma card_one_remaining:
  assumes "finite A" "c \<in> A"
  shows "(card A = 1) = (A \<subseteq> {c})"
proof
  assume "card A = 1"
  then obtain y where "A = {y}" by (auto simp: card_1_singleton_iff)
  with assms(2) show "A \<subseteq> {c}" by auto
next
  assume "A \<subseteq> {c}"
  with assms(2) have "A = {c}" by auto
  then show "card A = 1" by simp
qed

lemma kahn_step:
  assumes ids: "distinct ids" and g: "kahn_graph nodes ids graph"
    and inv: "kahn_inv nodes ids in_degree (current # queue) result"
  shows "\<exists>in_degree'.
      release_dependents (case map_of graph current of None \<Rightarrow> [] | Some ds \<Rightarrow> ds) (in_degree, queue)
        = Inr (in_degree', queue @ filter (\<lambda>x. in_set_dependencies nodes ids x - set result = {current}) ids)
      \<and> kahn_inv nodes ids in_degree'
           (queue @ filter (\<lambda>x. in_set_dependencies nodes ids x - set result = {current}) ids)
           (result @ [current])"
proof -
  let ?D = "in_set_dependencies nodes ids"
  let ?G = "filter (\<lambda>x. current \<in> ?D x) ids"
  let ?new = "filter (\<lambda>x. ?D x - set result = {current}) ids"
  from inv have sub: "set (result @ current # queue) \<subseteq> set ids"
    and dist: "distinct (result @ current # queue)"
    and deg: "\<And>x. x \<in> set ids \<Longrightarrow> map_of in_degree x = Some (int (card (?D x - set result)))"
    and mem: "\<And>x. x \<in> set ids \<Longrightarrow> (x \<in> set (result @ current # queue)) = (?D x \<subseteq> set result)"
    and topo: "\<And>pre x post. result = pre @ x # post \<Longrightarrow> ?D x \<subseteq> set pre"
    unfolding kahn_inv_def by blast+
  have c_ids: "current \<in> set ids" and c_new: "current \<notin> set result" "current \<notin> set queue"
    using sub dist by auto
  have gc: "(case map_of graph current of None \<Rightarrow> [] | Some ds \<Rightarrow> ds) = ?G"
    using g c_ids by (simp add: kahn_graph_def)
  have "distinct ?G" "\<forall>x \<in> set ?G. map_of in_degree x \<noteq> None"
    using ids deg by auto
  from release_dependents_result[OF this, of queue] obtain in_degree' where
    r: "release_dependents ?G (in_degree, queue)
        = Inr (in_degree', queue @ filter (\<lambda>x. map_of in_degree x = Some 1) ?G)"
    and d': "\<And>k. map_of in_degree' k =
            (if k \<in> set ?G then map_option (\<lambda>n. n - 1) (map_of in_degree k) else map_of in_degree k)"
    by blast
  have one: "(map_of in_degree x = Some 1) = (?D x - set result = {current})"
    if "x \<in> set ids" "current \<in> ?D x" for x
  proof -
    have "current \<in> ?D x - set result" using that c_new by simp
    from card_one_remaining[OF _ this] finite_in_set_dependencies[of nodes ids x]
    have "(card (?D x - set result) = 1) = (?D x - set result \<subseteq> {current})" by simp
    moreover have "(?D x - set result \<subseteq> {current}) = (?D x - set result = {current})"
      using \<open>current \<in> ?D x - set result\<close> by auto
    ultimately show ?thesis using deg[OF that(1)] by simp
  qed
  have new: "filter (\<lambda>x. map_of in_degree x = Some 1) ?G = ?new"
    unfolding filter_filter by (intro filter_cong refl) (use one in auto)
  have new_iff: "(x \<in> set ?new) = (x \<in> set ids \<and> ?D x - set result = {current})" for x
    by simp
  have 1: "set ((result @ [current]) @ queue @ ?new) \<subseteq> set ids"
    using sub by auto
  have new_fresh: "x \<notin> set (result @ current # queue)" if "x \<in> set ?new" for x
  proof -
    from that have x: "x \<in> set ids" "?D x - set result = {current}" by simp_all
    then have "\<not> ?D x \<subseteq> set result" by blast
    with mem[OF x(1)] show ?thesis by simp
  qed
  have 2: "distinct ((result @ [current]) @ queue @ ?new)"
    using dist ids new_fresh by auto
  have 3: "map_of in_degree' x = Some (int (card (?D x - set (result @ [current]))))"
    if x: "x \<in> set ids" for x
  proof (cases "current \<in> ?D x")
    case True
    then have m: "current \<in> ?D x - set result" using c_new by simp
    have "?D x - set (result @ [current]) = (?D x - set result) - {current}" by auto
    then have "card (?D x - set (result @ [current])) = card (?D x - set result) - 1"
      using m by (simp add: card_Diff_singleton)
    moreover have "1 \<le> card (?D x - set result)"
      using m finite_in_set_dependencies[of nodes ids x]
      by (metis One_nat_def Suc_leI card_gt_0_iff empty_iff finite_Diff)
    ultimately show ?thesis using True x deg[OF x] by (simp add: d' of_nat_diff)
  next
    case False
    then have "?D x - set (result @ [current]) = ?D x - set result" by auto
    with False x deg[OF x] show ?thesis by (simp add: d')
  qed
  have 4: "(x \<in> set ((result @ [current]) @ queue @ ?new)) = (?D x \<subseteq> set (result @ [current]))"
    if x: "x \<in> set ids" for x
  proof (cases "?D x \<subseteq> set result")
    case True
    with mem[OF x] show ?thesis by auto
  next
    case False
    with mem[OF x] have nx: "x \<notin> set (result @ current # queue)" by simp
    have "(x \<in> set ?new) = (?D x \<subseteq> set (result @ [current]))"
      using False x by auto
    with nx show ?thesis by auto
  qed
  have 5: "?D x \<subseteq> set pre" if "result @ [current] = pre @ x # post" for pre x post
  proof (cases post rule: rev_cases)
    case Nil
    with that have "pre = result" "x = current" by simp_all
    with mem[OF c_ids] show ?thesis by simp
  next
    case (snoc post' y)
    with that have "result = pre @ x # post'" by simp
    from topo[OF this] show ?thesis .
  qed
  have "kahn_inv nodes ids in_degree' (queue @ ?new) (result @ [current])"
    unfolding kahn_inv_def using 1 2 3 4 5 by blast
  with r show ?thesis unfolding gc new by blast
qed

lemma takeWhile_before:
  "x \<notin> set pre \<Longrightarrow> takeWhile (\<lambda>y. y \<noteq> x) (pre @ x # post) = pre"
  by (induction pre) auto

lemma finite_induced_subgraph: "finite (induced_subgraph nodes ids)"
proof (rule finite_subset)
  show "induced_subgraph nodes ids \<subseteq> set ids \<times> set ids"
    by (auto simp: induced_subgraph_def in_set_dependencies_def)
qed simp

lemma position_Cons: "position (a # xs) x = (if x = a then 0 else Suc (position xs x))"
  by (simp add: position_def)

lemma position_append_in: "x \<in> set xs \<Longrightarrow> position (xs @ ys) x = position xs x"
  by (simp add: position_def takeWhile_append1)

lemma position_less: "x \<in> set xs \<Longrightarrow> position xs x < length xs"
  by (induction xs) (auto simp: position_Cons)

lemma position_first: "x \<notin> set pre \<Longrightarrow> position (pre @ x # post) x = length pre"
  by (simp add: position_def takeWhile_before)

lemma sorted_wrt_position: "distinct xs \<Longrightarrow> sorted_wrt (\<lambda>x y. position xs x < position xs y) xs"
proof (induction xs)
  case Nil
  show ?case by simp
next
  case (Cons a xs)
  then have "sorted_wrt (\<lambda>x y. position xs x < position xs y) xs" by simp
  then have "sorted_wrt (\<lambda>x y. position (a # xs) x < position (a # xs) y) xs"
    by (rule sorted_wrt_mono_rel[rotated]) (use Cons.prems in \<open>auto simp: position_Cons\<close>)
  moreover have "\<forall>y \<in> set xs. position (a # xs) a < position (a # xs) y"
    using Cons.prems by (auto simp: position_Cons)
  ultimately show ?case by simp
qed

lemma release_time_append:
  "in_set_dependencies nodes ids x \<subseteq> set order \<Longrightarrow>
   release_time nodes ids (order @ ext) x = release_time nodes ids order x"
proof -
  assume a: "in_set_dependencies nodes ids x \<subseteq> set order"
  have "position (order @ ext) ` in_set_dependencies nodes ids x
      = position order ` in_set_dependencies nodes ids x"
    by (intro image_cong refl position_append_in) (use a in blast)
  then show ?thesis by (simp add: release_time_def)
qed

lemma release_time_new:
  assumes "in_set_dependencies nodes ids x - set result = {current}" "current \<notin> set result"
  shows "release_time nodes ids (result @ current # rest) x = Suc (length result)"
proof -
  let ?D = "in_set_dependencies nodes ids x"
  let ?l = "result @ current # rest"
  have c: "current \<in> ?D" using assms(1) by blast
  have pc: "position ?l current = length result"
    using assms(2) by (rule position_first)
  have le: "position ?l d \<le> length result" if "d \<in> ?D" for d
  proof (cases "d = current")
    case True
    with pc show ?thesis by simp
  next
    case False
    with that assms(1) have "d \<in> set result" by blast
    then show ?thesis
      using position_append_in[of d result "current # rest"] position_less[of d result] by simp
  qed
  have "Max (position ?l ` ?D) = length result"
  proof (rule Max_eqI)
    show "finite (position ?l ` ?D)" by (simp add: finite_in_set_dependencies)
    show "y \<le> length result" if "y \<in> position ?l ` ?D" for y using that le by auto
    show "length result \<in> position ?l ` ?D" using c pc by (metis image_eqI)
  qed
  with c show ?thesis by (auto simp: release_time_def)
qed

lemma fifo_inv_initial:
  assumes "distinct ids"
  shows "fifo_inv nodes ids (filter (\<lambda>x. in_set_dependencies nodes ids x = {}) ids) []"
proof -
  let ?q = "filter (\<lambda>x. in_set_dependencies nodes ids x = {}) ids"
  have z: "release_time nodes ids ?q x = 0" if "x \<in> set ?q" for x
    using that by (simp add: release_time_def)
  have "sorted_wrt (\<lambda>x y. position ids x < position ids y) ?q"
    using sorted_wrt_position[OF assms] by (rule sorted_wrt_filter)
  then have "sorted_wrt (fifo_before nodes ids ?q) ?q"
    by (rule sorted_wrt_mono_rel[rotated]) (simp add: fifo_before_def z)
  with z show ?thesis by (simp add: fifo_inv_def)
qed

lemma fifo_step:
  assumes ids: "distinct ids"
    and inv: "kahn_inv nodes ids in_degree (current # queue) result"
    and fifo: "fifo_inv nodes ids (current # queue) result"
  shows "fifo_inv nodes ids
           (queue @ filter (\<lambda>x. in_set_dependencies nodes ids x - set result = {current}) ids)
           (result @ [current])"
proof -
  let ?D = "in_set_dependencies nodes ids"
  define new where "new = filter (\<lambda>x. ?D x - set result = {current}) ids"
  define l where "l = result @ current # queue"
  define l' where "l' = l @ new"
  from inv have dist: "distinct l"
    and mem: "\<And>x. x \<in> set ids \<Longrightarrow> (x \<in> set l) = (?D x \<subseteq> set result)"
    and sub: "set l \<subseteq> set ids"
    unfolding kahn_inv_def l_def by blast+
  from fifo have so: "sorted_wrt (fifo_before nodes ids l) l"
    and bd: "\<And>x. x \<in> set l \<Longrightarrow> release_time nodes ids l x \<le> length result"
    unfolding fifo_inv_def l_def by blast+
  have c_new: "current \<notin> set result" using dist unfolding l_def by simp
  have res_l: "set result \<subseteq> set l" unfolding l_def by auto
  have old: "release_time nodes ids l' x = release_time nodes ids l x" if "x \<in> set l" for x
  proof -
    from that sub mem[of x] res_l have "?D x \<subseteq> set l" by blast
    then show ?thesis unfolding l'_def by (rule release_time_append)
  qed
  have new: "release_time nodes ids l' x = Suc (length result)" if "x \<in> set new" for x
  proof -
    from that have "?D x - set result = {current}" unfolding new_def by simp
    from release_time_new[OF this c_new, of "queue @ new"] show ?thesis
      unfolding l'_def l_def by simp
  qed
  have 1: "sorted_wrt (fifo_before nodes ids l') l"
  proof (rule sorted_wrt_mono_rel[OF _ so])
    fix x y assume "x \<in> set l" "y \<in> set l" "fifo_before nodes ids l x y"
    then show "fifo_before nodes ids l' x y"
      unfolding fifo_before_def by (simp only: old)
  qed
  have sp: "sorted_wrt (\<lambda>x y. position ids x < position ids y) new"
    unfolding new_def using sorted_wrt_position[OF ids] by (rule sorted_wrt_filter)
  have 2: "sorted_wrt (fifo_before nodes ids l') new"
  proof (rule sorted_wrt_mono_rel[OF _ sp])
    fix x y assume "x \<in> set new" "y \<in> set new" "position ids x < position ids y"
    then show "fifo_before nodes ids l' x y"
      unfolding fifo_before_def by (simp only: new simp_thms)
  qed
  have 3: "fifo_before nodes ids l' x y" if "x \<in> set l" "y \<in> set new" for x y
  proof -
    have "release_time nodes ids l' x < release_time nodes ids l' y"
      unfolding old[OF that(1)] new[OF that(2)] using bd[OF that(1)] by (rule le_imp_less_Suc)
    then show ?thesis unfolding fifo_before_def by (rule disjI1)
  qed
  have s: "sorted_wrt (fifo_before nodes ids l') l'"
    unfolding l'_def sorted_wrt_append using 1 2 3 unfolding l'_def by blast
  have b: "release_time nodes ids l' x \<le> length (result @ [current])" if "x \<in> set l'" for x
  proof (cases "x \<in> set l")
    case True
    from bd[OF True] have "release_time nodes ids l' x \<le> length result"
      unfolding old[OF True] .
    then show ?thesis by simp
  next
    case False
    with that have "x \<in> set new" unfolding l'_def by simp
    from new[OF this] show ?thesis by simp
  qed
  have e: "(result @ [current]) @ queue @ filter (\<lambda>x. ?D x - set result = {current}) ids = l'"
    unfolding l'_def l_def new_def by simp
  show ?thesis
    unfolding fifo_inv_def e using s b by blast
qed

lemma kahn_loop_fifo:
  assumes "distinct ids" "kahn_graph nodes ids graph"
    "kahn_inv nodes ids in_degree queue result" "fifo_inv nodes ids queue result"
  shows "\<exists>result' in_degree'. kahn_loop graph in_degree queue result = Inr result'
      \<and> kahn_inv nodes ids in_degree' [] result' \<and> fifo_inv nodes ids [] result'"
  using assms(2,3,4)
proof (induction graph in_degree queue result rule: kahn_loop.induct)
  case (1 graph in_degree queue result)
  note g = 1(2) and inv = 1(3) and fifo = 1(4)
  show ?case
  proof (cases queue)
    case Nil
    with inv fifo show ?thesis by (subst kahn_loop.simps) auto
  next
    case (Cons current rest)
    from kahn_step[OF assms(1) g inv[unfolded Cons]] obtain in_degree' where
      r: "release_dependents (case map_of graph current of None \<Rightarrow> [] | Some ds \<Rightarrow> ds) (in_degree, rest)
        = Inr (in_degree', rest @ filter (\<lambda>x. in_set_dependencies nodes ids x - set result = {current}) ids)"
      and i: "kahn_inv nodes ids in_degree'
           (rest @ filter (\<lambda>x. in_set_dependencies nodes ids x - set result = {current}) ids)
           (result @ [current])"
      by blast
    note f = fifo_step[OF assms(1) inv[unfolded Cons] fifo[unfolded Cons]]
    from 1(1)[OF Cons r refl g i f] show ?thesis
      by (subst kahn_loop.simps) (simp add: Cons r)
  qed
qed

lemma kahn_inv_initial:
  assumes "distinct ids"
    and "\<forall>k. map_of in_degree k =
            (if k \<in> set ids then Some (int (card (in_set_dependencies nodes ids k))) else None)"
  shows "initial_queue in_degree ids = Inr (filter (\<lambda>x. in_set_dependencies nodes ids x = {}) ids)"
    and "kahn_inv nodes ids in_degree (filter (\<lambda>x. in_set_dependencies nodes ids x = {}) ids) []"
proof -
  have z: "(map_of in_degree x = Some 0) = (in_set_dependencies nodes ids x = {})" if "x \<in> set ids" for x
    using that assms(2) finite_in_set_dependencies[of nodes ids x] by simp
  have "initial_queue in_degree ids = Inr (filter (\<lambda>e. map_of in_degree e = Some 0) ids)"
    by (rule initial_queue_result) (simp add: assms(2))
  also have "filter (\<lambda>e. map_of in_degree e = Some 0) ids
      = filter (\<lambda>x. in_set_dependencies nodes ids x = {}) ids"
    by (intro filter_cong refl) (simp add: z)
  finally show "initial_queue in_degree ids = Inr (filter (\<lambda>x. in_set_dependencies nodes ids x = {}) ids)" .
  show "kahn_inv nodes ids in_degree (filter (\<lambda>x. in_set_dependencies nodes ids x = {}) ids) []"
    unfolding kahn_inv_def using assms by auto
qed

lemma kahn_complete_iff_acyclic:
  assumes "kahn_inv nodes ids in_degree [] result"
  shows "(set result = set ids) = acyclic (induced_subgraph nodes ids)"
proof
  let ?D = "in_set_dependencies nodes ids"
  let ?R = "induced_subgraph nodes ids"
  from assms have sub: "set result \<subseteq> set ids" and dist: "distinct result"
    and mem: "\<And>x. x \<in> set ids \<Longrightarrow> (x \<in> set result) = (?D x \<subseteq> set result)"
    and topo: "\<And>pre x post. result = pre @ x # post \<Longrightarrow> ?D x \<subseteq> set pre"
    unfolding kahn_inv_def by simp_all
  {
    assume full: "set result = set ids"
    let ?f = "\<lambda>y. length (takeWhile (\<lambda>z. z \<noteq> y) result)"
    have "?f d < ?f x" if "(x, d) \<in> ?R" for x d
    proof -
      from that have x: "x \<in> set result" and d: "d \<in> ?D x"
        using full by (simp_all add: induced_subgraph_def)
      from x obtain pre post where r: "result = pre @ x # post" by (meson split_list)
      with dist have xp: "x \<notin> set pre" by simp
      from topo[OF r] d have "d \<in> set pre" by blast
      then obtain p1 p2 where p: "pre = p1 @ d # p2" by (meson split_list)
      with r dist have dp: "d \<notin> set p1" by simp
      have "?f x = length pre" unfolding r by (simp only: takeWhile_before[OF xp])
      moreover have "result = p1 @ d # (p2 @ x # post)" using r p by simp
      then have "?f d = length p1" using takeWhile_before[OF dp] by simp
      ultimately show ?thesis using p by simp
    qed
    then have "?R\<inverse> \<subseteq> measure ?f" by auto
    then have "wf (?R\<inverse>)" by (rule wf_subset[OF wf_measure])
    then show "acyclic ?R" using wf_acyclic acyclic_converse by blast
  }
  {
    assume ac: "acyclic ?R"
    show "set result = set ids"
    proof (rule ccontr)
      assume "set result \<noteq> set ids"
      with sub obtain x0 where x0: "x0 \<in> set ids - set result" by blast
      have "wf (?R\<inverse>)"
        using finite_acyclic_wf_converse[OF finite_induced_subgraph ac] .
      from wfE_min[OF this x0] obtain z where z: "z \<in> set ids - set result"
        and min: "\<And>y. (y, z) \<in> ?R\<inverse> \<Longrightarrow> y \<notin> set ids - set result" by blast
      from z mem[of z] obtain d where d: "d \<in> ?D z" "d \<notin> set result" by blast
      then have "d \<in> set ids" using in_set_dependencies_subset[of nodes ids z] by blast
      moreover have "(d, z) \<in> ?R\<inverse>" using z d by (simp add: induced_subgraph_def)
      ultimately show False using min d by blast
    qed
  }
qed

lemma get_change_order_result:
  assumes ids: "distinct ids" and sv: "set_valued nodes"
  shows "\<exists>result in_degree.
      kahn_inv nodes ids in_degree [] result \<and> fifo_inv nodes ids [] result
      \<and> get_change_order nodes ids = Inr (if set result = set ids then result else ids)"
proof -
  from build_graph_initial[OF ids sv] obtain graph in_degree where
    b: "build_graph nodes ids ids (dict_fromkeys ids [], dict_fromkeys ids 0) = Inr (graph, in_degree)"
    and g: "kahn_graph nodes ids graph"
    and d: "\<forall>k. map_of in_degree k =
            (if k \<in> set ids then Some (int (card (in_set_dependencies nodes ids k))) else None)"
    unfolding kahn_graph_def by blast
  note q = kahn_inv_initial[OF ids d]
  from kahn_loop_fifo[OF ids g q(2) fifo_inv_initial[OF ids]] obtain result in_degree' where
    k: "kahn_loop graph in_degree (filter (\<lambda>x. in_set_dependencies nodes ids x = {}) ids) [] = Inr result"
    and inv: "kahn_inv nodes ids in_degree' [] result"
    and ff: "fifo_inv nodes ids [] result"
    by blast
  from inv have sub: "set result \<subseteq> set ids" and dist: "distinct result"
    unfolding kahn_inv_def by simp_all
  have "(length result = length ids) = (set result = set ids)"
  proof
    assume "length result = length ids"
    then have "card (set result) = card (set ids)"
      using dist ids by (simp add: distinct_card)
    with sub show "set result = set ids" by (simp add: card_subset_eq)
  next
    assume "set result = set ids"
    then show "length result = length ids"
      using dist ids by (metis distinct_card)
  qed
  then have "get_change_order nodes ids = Inr (if set result = set ids then result else ids)"
    by (simp add: get_change_order_def b q(1) k)
  with inv ff show ?thesis by blast
qed

lemma get_change_order_correct:
  assumes ids: "distinct ids" and sv: "set_valued nodes"
  shows "\<exists>order. get_change_order nodes ids = Inr order
      \<and> (acyclic (induced_subgraph nodes ids) \<longrightarrow>
            mset order = mset ids
            \<and> (\<forall>x d. (x, d) \<in> induced_subgraph nodes ids \<longrightarrow> d \<in> set (takeWhile (\<lambda>y. y \<noteq> x) order))
            \<and> sorted_wrt (fifo_before nodes ids order) order)
      \<and> (\<not> acyclic (induced_subgraph nodes ids) \<longrightarrow> order = ids)"
proof -
  let ?R = "induced_subgraph nodes ids"
  from get_change_order_result[OF ids sv] obtain result in_degree where
    inv: "kahn_inv nodes ids in_degree [] result"
    and ff: "fifo_inv nodes ids [] result"
    and r: "get_change_order nodes ids = Inr (if set result = set ids then result else ids)"
    by blast
  from ff have fifo: "sorted_wrt (fifo_before nodes ids result) result"
    unfolding fifo_inv_def by simp
  note iff = kahn_complete_iff_acyclic[OF inv]
  from inv have dist: "distinct result"
    and topo: "\<And>pre x post. result = pre @ x # post \<Longrightarrow> in_set_dependencies nodes ids x \<subseteq> set pre"
    unfolding kahn_inv_def by simp_all
  show ?thesis
  proof (cases "acyclic ?R")
    case False
    with iff r show ?thesis by auto
  next
    case True
    with iff have full: "set result = set ids" by simp
    with r have o: "get_change_order nodes ids = Inr result" by simp
    have m: "mset result = mset ids"
      using full dist ids by (simp add: set_eq_iff_mset_eq_distinct)
    have p: "d \<in> set (takeWhile (\<lambda>y. y \<noteq> x) result)" if "(x, d) \<in> ?R" for x d
    proof -
      from that have x: "x \<in> set result" and d: "d \<in> in_set_dependencies nodes ids x"
        using full by (simp_all add: induced_subgraph_def)
      from x obtain pre post where rr: "result = pre @ x # post" by (meson split_list)
      with dist have xp: "x \<notin> set pre" by simp
      from topo[OF rr] d have "d \<in> set pre" by blast
      then show ?thesis unfolding rr by (simp only: takeWhile_before[OF xp])
    qed
    from o m p fifo True show ?thesis by blast
  qed
qed

text \<open>The scenario of the specification: \<^verbatim>\<open>order\<close> depends on \<^verbatim>\<open>customer\<close>.\<close>

lemma order_customer_change_order:
  "get_change_order order_customer_index [''order'', ''customer''] = Inr [''customer'', ''order'']"
  by code_simp

lemma induced_subgraph_cong:
  "set ids = set ids' \<Longrightarrow> induced_subgraph nodes ids = induced_subgraph nodes ids'"
  by (simp add: induced_subgraph_def in_set_dependencies_def)

text \<open>
  C1, as amended. For every input list without repeated ids and every index,
  \<^verbatim>\<open>get_change_order\<close> returns without raising. When the dependency graph induced on the input
  list is acyclic, the list returned is a permutation of the input in which every dependency
  of an id that is in the list stands before that id, and it is in first-in-first-out order:
  sorted by release time, ids released together standing in input order. When the induced
  graph has a cycle, the input list is returned as it is.
\<close>

theorem C1_change_order:
  assumes "distinct ids" and "set_valued nodes"
  shows "\<exists>order. get_change_order nodes ids = Inr order
      \<and> (acyclic (induced_subgraph nodes ids) \<longrightarrow>
            mset order = mset ids
            \<and> (\<forall>x d. (x, d) \<in> induced_subgraph nodes ids \<longrightarrow> d \<in> set (takeWhile (\<lambda>y. y \<noteq> x) order))
            \<and> sorted_wrt (fifo_before nodes ids order) order)
      \<and> (\<not> acyclic (induced_subgraph nodes ids) \<longrightarrow> order = ids)"
  using assms by (rule get_change_order_correct)

theorem C1_change_order_witness:
  "distinct [''d'', ''b'', ''a'', ''c''] \<and> set_valued chain_index
   \<and> acyclic (induced_subgraph chain_index [''d'', ''b'', ''a'', ''c''])
   \<and> get_change_order chain_index [''d'', ''b'', ''a'', ''c''] = Inr [''a'', ''b'', ''c'', ''d'']
   \<and> distinct [''A'', ''B'', ''C''] \<and> set_valued cycle_index
   \<and> \<not> acyclic (induced_subgraph cycle_index [''A'', ''B'', ''C''])
   \<and> get_change_order cycle_index [''A'', ''B'', ''C''] = Inr [''A'', ''B'', ''C'']"
proof -
  have d1: "distinct [''d'', ''b'', ''a'', ''c'']" by simp
  have s1: "set_valued chain_index" by (simp add: set_valued_def chain_index_def)
  have e1: "get_change_order chain_index [''d'', ''b'', ''a'', ''c''] = Inr [''a'', ''b'', ''c'', ''d'']"
    by code_simp
  have a1: "acyclic (induced_subgraph chain_index [''d'', ''b'', ''a'', ''c''])"
    using C1_change_order[OF d1 s1] unfolding e1 by auto
  have d2: "distinct [''A'', ''B'', ''C'']" by simp
  have s2: "set_valued cycle_index" by (simp add: set_valued_def cycle_index_def)
  have e2: "get_change_order cycle_index [''A'', ''B'', ''C''] = Inr [''A'', ''B'', ''C'']"
    by code_simp
  have m: "(''A'', ''B'') \<in> induced_subgraph cycle_index [''A'', ''B'', ''C'']"
    by (simp add: induced_subgraph_def in_set_dependencies_def entity_dependencies_def cycle_index_def)
  have n: "''B'' \<notin> set (takeWhile (\<lambda>y. y \<noteq> ''A'') [''A'', ''B'', ''C''])" by simp
  have a2: "\<not> acyclic (induced_subgraph cycle_index [''A'', ''B'', ''C''])"
    using C1_change_order[OF d2 s2] m n unfolding e2 by blast
  from d1 s1 a1 e1 d2 s2 a2 e2 show ?thesis by blast
qed

text \<open>
  C1 as stated, for every input list, fails on lists with a repeated id. In the first input
  the induced graph is acyclic and \<^verbatim>\<open>x\<close> is output before its dependency \<^verbatim>\<open>d2\<close>: the repeated
  \<^verbatim>\<open>d1\<close> is popped twice and lowers the count of \<^verbatim>\<open>x\<close> twice. In the second the induced graph
  has the cycle of \<^verbatim>\<open>x\<close> and \<^verbatim>\<open>y\<close> and the list returned is not the input.
\<close>

theorem C1_duplicate_ids_counterexample:
  "acyclic (induced_subgraph dup_index [''d1'', ''d1'', ''x'', ''d2'', ''e''])
   \<and> get_change_order dup_index [''d1'', ''d1'', ''x'', ''d2'', ''e'']
       = Inr [''d1'', ''d1'', ''e'', ''x'', ''d2'']
   \<and> (''x'', ''d2'') \<in> induced_subgraph dup_index [''d1'', ''d1'', ''x'', ''d2'', ''e'']
   \<and> ''d2'' \<notin> set (takeWhile (\<lambda>y. y \<noteq> ''x'') [''d1'', ''d1'', ''e'', ''x'', ''d2''])
   \<and> \<not> acyclic (induced_subgraph dup_cycle_index [''y'', ''x'', ''d'', ''d''])
   \<and> get_change_order dup_cycle_index [''y'', ''x'', ''d'', ''d''] = Inr [''d'', ''d'', ''x'', ''y'']"
proof -
  have d: "distinct [''d1'', ''x'', ''d2'', ''e'']" by simp
  have s: "set_valued dup_index" by (simp add: set_valued_def dup_index_def)
  have e: "get_change_order dup_index [''d1'', ''x'', ''d2'', ''e''] = Inr [''d1'', ''e'', ''d2'', ''x'']"
    by code_simp
  have "acyclic (induced_subgraph dup_index [''d1'', ''x'', ''d2'', ''e''])"
    using get_change_order_correct[OF d s] unfolding e by auto
  moreover have "induced_subgraph dup_index [''d1'', ''d1'', ''x'', ''d2'', ''e'']
      = induced_subgraph dup_index [''d1'', ''x'', ''d2'', ''e'']"
    by (rule induced_subgraph_cong) auto
  ultimately have 1: "acyclic (induced_subgraph dup_index [''d1'', ''d1'', ''x'', ''d2'', ''e''])"
    by simp
  have 2: "get_change_order dup_index [''d1'', ''d1'', ''x'', ''d2'', ''e'']
       = Inr [''d1'', ''d1'', ''e'', ''x'', ''d2'']"
    by code_simp
  have 3: "(''x'', ''d2'') \<in> induced_subgraph dup_index [''d1'', ''d1'', ''x'', ''d2'', ''e'']"
    by (simp add: induced_subgraph_def in_set_dependencies_def entity_dependencies_def dup_index_def)
  have 4: "''d2'' \<notin> set (takeWhile (\<lambda>y. y \<noteq> ''x'') [''d1'', ''d1'', ''e'', ''x'', ''d2''])"
    by simp
  have xy: "(''x'', ''y'') \<in> induced_subgraph dup_cycle_index [''y'', ''x'', ''d'', ''d'']"
    and yx: "(''y'', ''x'') \<in> induced_subgraph dup_cycle_index [''y'', ''x'', ''d'', ''d'']"
    by (simp_all add: induced_subgraph_def in_set_dependencies_def entity_dependencies_def
        dup_cycle_index_def)
  then have "(''x'', ''x'') \<in> (induced_subgraph dup_cycle_index [''y'', ''x'', ''d'', ''d''])\<^sup>+"
    by (meson trancl.intros)
  then have 5: "\<not> acyclic (induced_subgraph dup_cycle_index [''y'', ''x'', ''d'', ''d''])"
    unfolding acyclic_def by blast
  have 6: "get_change_order dup_cycle_index [''y'', ''x'', ''d'', ''d''] = Inr [''d'', ''d'', ''x'', ''y'']"
    by code_simp
  from 1 2 3 4 5 6 show ?thesis by blast
qed

section \<open>Properties of the graph compiler\<close>

lemma collect_member:
  "collect f xs = Inr ys \<Longrightarrow> y \<in> set ys \<Longrightarrow> \<exists>x \<in> set xs. \<exists>zs. f x = Inr zs \<and> y \<in> set zs"
  by (induction xs arbitrary: ys) (auto split: sum.splits)

lemma collect_ok_iff:
  "(\<exists>ys. collect f xs = Inr ys) \<longleftrightarrow> (\<forall>x \<in> set xs. \<exists>zs. f x = Inr zs)"
  by (induction xs) (auto split: sum.splits)

lemma collect_error:
  "collect f xs = Inl e \<Longrightarrow> \<exists>x \<in> set xs. f x = Inl e"
  by (induction xs) (auto split: sum.splits)

lemma collect_singletons:
  "collect (\<lambda>x. map_sum id (\<lambda>n. [n]) (g x)) xs = Inr ys \<Longrightarrow> map g xs = map Inr ys"
  by (induction xs arbitrary: ys) (auto split: sum.splits simp: map_sum_def)

lemma field_edge_sound:
  "field_edge node_ids entity_id field = Inr zs \<Longrightarrow> e \<in> set zs \<Longrightarrow>
   source e = entity_id \<and> target e \<in> node_ids"
  by (auto simp: field_edge_def Let_def split: option.splits if_splits)

lemma entity_edges_sound:
  assumes "entity_edges node_ids entity = Inr zs" "e \<in> set zs"
  shows "(\<exists>name. entity_name entity = Some name \<and> source e = ''asset.entity.'' @ lower name)
         \<and> target e \<in> node_ids"
proof (cases "entity_name entity")
  case None
  with assms show ?thesis by (simp add: entity_edges_def)
next
  case (Some name)
  with assms have "collect (field_edge node_ids (''asset.entity.'' @ lower name))
      (get_or (entity_fields entity) []) = Inr zs"
    by (simp add: entity_edges_def)
  from collect_member[OF this assms(2)] Some show ?thesis
    by (auto dest: field_edge_sound)
qed

lemma flow_edge_sound:
  "e \<in> set (flow_edge node_ids wf_id rel verb item) \<Longrightarrow> source e = wf_id \<and> target e \<in> node_ids"
  by (auto simp: flow_edge_def Let_def split: if_splits)

lemma workflow_edges_sound:
  "e \<in> set (workflow_edges node_ids workflow) \<Longrightarrow>
   source e = gnode_id (workflow_to_node workflow) \<and> target e \<in> node_ids"
  by (auto simp: workflow_edges_def workflow_to_node_def Let_def dest: flow_edge_sound)

lemma build_edges_sound:
  assumes "build_edges specs nodes = Inr edges" "e \<in> set edges"
  shows "target e \<in> set (map gnode_id nodes)
     \<and> ((\<exists>entity \<in> set (specs_entities specs). \<exists>name. entity_name entity = Some name
              \<and> source e = ''asset.entity.'' @ lower name)
          \<or> (\<exists>workflow \<in> set (specs_workflows specs). source e = gnode_id (workflow_to_node workflow)))"
proof -
  let ?ids = "set (map gnode_id nodes)"
  from assms(1) obtain entity_part where
    ep: "collect (entity_edges ?ids) (specs_entities specs) = Inr entity_part"
    and ed: "edges = entity_part @ concat (map (workflow_edges ?ids) (specs_workflows specs))"
    by (auto simp: build_edges_def Let_def split: sum.splits)
  from assms(2) ed consider (ent) "e \<in> set entity_part"
    | (wf) workflow where "workflow \<in> set (specs_workflows specs)" "e \<in> set (workflow_edges ?ids workflow)"
    by auto
  then show ?thesis
  proof cases
    case ent
    from collect_member[OF ep ent] show ?thesis
      by (meson entity_edges_sound)
  next
    case wf
    then show ?thesis using workflow_edges_sound[OF wf(2)] by blast
  qed
qed

lemma entity_node_emitted:
  assumes "map entity_to_node ents = map Inr entity_nodes" "entity \<in> set ents"
    "entity_name entity = Some name"
  shows "''asset.entity.'' @ lower name \<in> set (map gnode_id entity_nodes)"
proof -
  from assms(1,2) obtain n where "n \<in> set entity_nodes" "entity_to_node entity = Inr n"
    by (metis (no_types, lifting) image_iff list.set_map)
  with assms(3) show ?thesis
    by (force simp: entity_to_node_def Let_def)
qed

text \<open>
  C3. In every graph document the compiler produces, each edge's source and target are ids of
  nodes of that document. A candidate edge whose referenced node is not among the nodes handed
  to \<^verbatim>\<open>build_edges\<close> is not emitted: every edge \<^verbatim>\<open>build_edges\<close> returns has its target among them.
\<close>

theorem C3_edges_reference_nodes:
  "(generate_graph now specs = Inr graph \<longrightarrow>
      (\<forall>e \<in> set (graph_edges graph).
         source e \<in> set (map gnode_id (graph_nodes graph))
         \<and> target e \<in> set (map gnode_id (graph_nodes graph))))
   \<and> (build_edges specs nodes = Inr edges \<longrightarrow>
      (\<forall>e \<in> set edges. target e \<in> set (map gnode_id nodes)))"
proof (intro conjI impI ballI)
  fix e
  assume g: "generate_graph now specs = Inr graph" and e: "e \<in> set (graph_edges graph)"
  from g obtain entity_nodes where
    en: "collect (\<lambda>entity. map_sum id (\<lambda>n. [n]) (entity_to_node entity)) (specs_entities specs)
          = Inr entity_nodes"
    by (auto simp: generate_graph_def split: sum.splits)
  define nodes where "nodes = entity_nodes @ map algorithm_to_node (specs_algorithms specs)
                @ map workflow_to_node (specs_workflows specs)"
  from g en obtain edges where be: "build_edges specs nodes = Inr edges"
    and gr: "graph = \<lparr>version = ''2.0'', generated_at = now, graph_nodes = nodes, graph_edges = edges\<rparr>"
    by (auto simp: generate_graph_def Let_def nodes_def split: sum.splits)
  from e gr have e': "e \<in> set edges" by simp
  note bs = build_edges_sound[OF be e']
  have "source e \<in> set (map gnode_id nodes)"
    using bs entity_node_emitted[OF collect_singletons[OF en]]
    by (auto simp: nodes_def)
  with bs gr show "source e \<in> set (map gnode_id (graph_nodes graph))" by simp
  from bs gr show "target e \<in> set (map gnode_id (graph_nodes graph))" by simp
next
  fix e
  assume "build_edges specs nodes = Inr edges" "e \<in> set edges"
  then show "target e \<in> set (map gnode_id nodes)"
    using build_edges_sound by blast
qed

theorem C3_edges_reference_nodes_witness:
  "generate_graph ''2026-01-01T00:00:00Z'' shop_specs = Inr shop_graph
   \<and> build_edges shop_specs (graph_nodes shop_graph) = Inr (graph_edges shop_graph)
   \<and> graph_edges shop_graph \<noteq> []
   \<and> set (map source (graph_edges shop_graph)) \<union> set (map target (graph_edges shop_graph))
       \<subseteq> set (map gnode_id (graph_nodes shop_graph))"
proof -
  have g: "generate_graph ''2026-01-01T00:00:00Z'' shop_specs = Inr shop_graph"
    by code_simp
  have b: "build_edges shop_specs (graph_nodes shop_graph) = Inr (graph_edges shop_graph)"
    by code_simp
  have n: "graph_edges shop_graph \<noteq> []"
    by (simp add: shop_graph_def)
  show ?thesis
    using g b n
      C3_edges_reference_nodes[of "''2026-01-01T00:00:00Z''" shop_specs shop_graph
        "graph_nodes shop_graph" "graph_edges shop_graph"]
    by auto
qed

lemma entity_to_node_error: "entity_to_node entity = Inl e \<Longrightarrow> e = KeyError ''name''"
  by (auto simp: entity_to_node_def Let_def split: option.splits)

lemma field_edge_error: "field_edge node_ids entity_id field = Inl e \<Longrightarrow> e = KeyError ''name'' \<and> field_name field = None"
  by (auto simp: field_edge_def Let_def split: option.splits if_splits)

lemma entity_edges_error: "entity_edges node_ids entity = Inl e \<Longrightarrow> e = KeyError ''name''"
  by (auto simp: entity_edges_def Let_def split: option.splits dest!: collect_error field_edge_error)

lemma generate_graph_error: "generate_graph now specs = Inl e \<Longrightarrow> e = KeyError ''name''"
  by (auto simp: generate_graph_def build_edges_def Let_def map_sum_def split: sum.splits
      dest!: collect_error entity_edges_error entity_to_node_error)

lemma nodes_collect_ok:
  "(\<exists>ns. collect (\<lambda>entity. map_sum id (\<lambda>n. [n]) (entity_to_node entity)) ents = Inr ns)
   \<longleftrightarrow> (\<forall>entity \<in> set ents. entity_name entity \<noteq> None)"
  unfolding collect_ok_iff
  by (auto simp: entity_to_node_def Let_def map_sum_def split: option.splits sum.splits)

lemma field_edge_ok: "field_name field \<noteq> None \<Longrightarrow> \<exists>zs. field_edge node_ids entity_id field = Inr zs"
  by (auto simp: field_edge_def Let_def split: option.splits)

lemma entity_edges_ok:
  assumes "entity_name entity \<noteq> None" "\<forall>field \<in> set (get_or (entity_fields entity) []). field_name field \<noteq> None"
  shows "\<exists>zs. entity_edges node_ids entity = Inr zs"
proof -
  from assms(1) obtain name where n: "entity_name entity = Some name" by auto
  have "\<exists>zs. collect (field_edge node_ids (''asset.entity.'' @ lower name)) (get_or (entity_fields entity) []) = Inr zs"
    unfolding collect_ok_iff using assms(2) field_edge_ok by blast
  with n show ?thesis by (simp add: entity_edges_def)
qed

lemma generate_graph_nodes:
  assumes "generate_graph now specs = Inr graph"
  shows "map Inr (graph_nodes graph) =
           map entity_to_node (specs_entities specs)
           @ map (\<lambda>a. Inr (algorithm_to_node a)) (specs_algorithms specs)
           @ map (\<lambda>w. Inr (workflow_to_node w)) (specs_workflows specs)"
proof -
  from assms obtain entity_nodes where
    en: "collect (\<lambda>entity. map_sum id (\<lambda>n. [n]) (entity_to_node entity)) (specs_entities specs)
          = Inr entity_nodes"
    by (auto simp: generate_graph_def split: sum.splits)
  with assms have "graph_nodes graph = entity_nodes @ map algorithm_to_node (specs_algorithms specs)
                @ map workflow_to_node (specs_workflows specs)"
    by (auto simp: generate_graph_def Let_def split: sum.splits)
  then show ?thesis using collect_singletons[OF en] by (simp add: comp_def)
qed

text \<open>
  C7, as amended. The compiler rejects no record on its own. When every entity record and every
  field of an entity record has a name, the compilation returns a graph document; a document
  it returns has exactly one node per input record, in input order. An entity record without
  a name makes the whole compilation fail with \<^verbatim>\<open>KeyError('name')\<close>, so that no document, and
  no node for that record, is produced. An algorithm or workflow record with neither id nor
  name is compiled into a node whose id ends in \<^verbatim>\<open>unknown\<close>.
\<close>

theorem C7_compile_all_or_nothing:
  "((\<forall>entity \<in> set (specs_entities specs). entity_name entity \<noteq> None
        \<and> (\<forall>field \<in> set (get_or (entity_fields entity) []). field_name field \<noteq> None))
      \<longrightarrow> (\<exists>graph. generate_graph now specs = Inr graph))
   \<and> ((\<exists>entity \<in> set (specs_entities specs). entity_name entity = None)
      \<longrightarrow> generate_graph now specs = Inl (KeyError ''name''))
   \<and> (generate_graph now specs = Inr graph
      \<longrightarrow> map Inr (graph_nodes graph) =
             map entity_to_node (specs_entities specs)
             @ map (\<lambda>a. Inr (algorithm_to_node a)) (specs_algorithms specs)
             @ map (\<lambda>w. Inr (workflow_to_node w)) (specs_workflows specs)
          \<and> length (graph_nodes graph) =
             length (specs_entities specs) + length (specs_algorithms specs)
             + length (specs_workflows specs))
   \<and> (algorithm_id algorithm = None \<and> algorithm_name algorithm = None
      \<longrightarrow> gnode_id (algorithm_to_node algorithm) = ''algo.compute.unknown'')
   \<and> (workflow_id workflow = None \<and> workflow_name workflow = None
      \<longrightarrow> gnode_id (workflow_to_node workflow) = ''wf.process.unknown'')"
proof (intro conjI impI)
  assume ok: "\<forall>entity \<in> set (specs_entities specs). entity_name entity \<noteq> None
        \<and> (\<forall>field \<in> set (get_or (entity_fields entity) []). field_name field \<noteq> None)"
  then obtain ns where ns: "collect (\<lambda>entity. map_sum id (\<lambda>n. [n]) (entity_to_node entity)) (specs_entities specs) = Inr ns"
    using nodes_collect_ok[of "specs_entities specs"] by blast
  have "\<exists>es. collect (entity_edges ids) (specs_entities specs) = Inr es" for ids
    unfolding collect_ok_iff using ok entity_edges_ok by blast
  then have "\<exists>es. build_edges specs nodes = Inr es" for nodes
    by (auto simp: build_edges_def Let_def split: sum.splits) (metis sum.distinct(1))
  then show "\<exists>graph. generate_graph now specs = Inr graph"
    using ns by (auto simp: generate_graph_def Let_def split: sum.splits) (metis sum.distinct(1))
next
  assume "\<exists>entity \<in> set (specs_entities specs). entity_name entity = None"
  then have "\<nexists>ns. collect (\<lambda>entity. map_sum id (\<lambda>n. [n]) (entity_to_node entity)) (specs_entities specs) = Inr ns"
    using nodes_collect_ok[of "specs_entities specs"] by blast
  then obtain e where "collect (\<lambda>entity. map_sum id (\<lambda>n. [n]) (entity_to_node entity)) (specs_entities specs) = Inl e"
    by (cases "collect (\<lambda>entity. map_sum id (\<lambda>n. [n]) (entity_to_node entity)) (specs_entities specs)") auto
  then have "generate_graph now specs = Inl e"
    by (simp add: generate_graph_def)
  then show "generate_graph now specs = Inl (KeyError ''name'')"
    using generate_graph_error by blast
next
  assume g: "generate_graph now specs = Inr graph"
  from generate_graph_nodes[OF g]
  show m: "map Inr (graph_nodes graph) =
             map entity_to_node (specs_entities specs)
             @ map (\<lambda>a. Inr (algorithm_to_node a)) (specs_algorithms specs)
             @ map (\<lambda>w. Inr (workflow_to_node w)) (specs_workflows specs)" .
  have "length (map (Inr :: Node \<Rightarrow> py_error + Node) (graph_nodes graph)) = length (specs_entities specs) + length (specs_algorithms specs)
             + length (specs_workflows specs)"
    unfolding m by simp
  then show "length (graph_nodes graph) =
             length (specs_entities specs) + length (specs_algorithms specs)
             + length (specs_workflows specs)" by simp
next
  assume "algorithm_id algorithm = None \<and> algorithm_name algorithm = None"
  then show "gnode_id (algorithm_to_node algorithm) = ''algo.compute.unknown''"
    by (simp add: algorithm_to_node_def get_or_def Let_def)
next
  assume "workflow_id workflow = None \<and> workflow_name workflow = None"
  then show "gnode_id (workflow_to_node workflow) = ''wf.process.unknown''"
    by (simp add: workflow_to_node_def get_or_def Let_def)
qed

theorem C7_compile_all_or_nothing_witness:
  "list_all (\<lambda>entity. entity_name entity \<noteq> None
        \<and> list_all (\<lambda>field. field_name field \<noteq> None) (get_or (entity_fields entity) []))
      (specs_entities shop_specs)
   \<and> (\<exists>graph. generate_graph ''2026-01-01T00:00:00Z'' shop_specs = Inr graph \<and> length (graph_nodes graph) = 3)
   \<and> (\<exists>entity \<in> set (specs_entities broken_specs). entity_name entity = None)
   \<and> generate_graph ''2026-01-01T00:00:00Z'' broken_specs = Inl (KeyError ''name'')
   \<and> algorithm_id anonymous_algorithm = None \<and> algorithm_name anonymous_algorithm = None
   \<and> gnode_id (algorithm_to_node anonymous_algorithm) = ''algo.compute.unknown''
   \<and> workflow_id anonymous_workflow = None \<and> workflow_name anonymous_workflow = None
   \<and> gnode_id (workflow_to_node anonymous_workflow) = ''wf.process.unknown''"
proof -
  have ok: "\<forall>entity \<in> set (specs_entities shop_specs). entity_name entity \<noteq> None
        \<and> (\<forall>field \<in> set (get_or (entity_fields entity) []). field_name field \<noteq> None)"
    by (simp add: shop_specs_def customer_entity_def order_entity_def get_or_def)
  have bad: "\<exists>entity \<in> set (specs_entities broken_specs). entity_name entity = None"
    by (simp add: broken_specs_def nameless_entity_def)
  have anon: "algorithm_id anonymous_algorithm = None \<and> algorithm_name anonymous_algorithm = None"
    "workflow_id anonymous_workflow = None \<and> workflow_name anonymous_workflow = None"
    by (simp_all add: anonymous_algorithm_def anonymous_workflow_def)
  have len: "length (specs_entities shop_specs) + length (specs_algorithms shop_specs)
             + length (specs_workflows shop_specs) = 3"
    by (simp add: shop_specs_def)
  from C7_compile_all_or_nothing[of shop_specs "''2026-01-01T00:00:00Z''"] ok
  obtain graph where g: "generate_graph ''2026-01-01T00:00:00Z'' shop_specs = Inr graph" by blast
  have "length (graph_nodes graph) = 3"
    using C7_compile_all_or_nothing[of shop_specs "''2026-01-01T00:00:00Z''" graph] g len by simp
  with g have 1: "\<exists>graph. generate_graph ''2026-01-01T00:00:00Z'' shop_specs = Inr graph \<and> length (graph_nodes graph) = 3"
    by blast
  have 2: "generate_graph ''2026-01-01T00:00:00Z'' broken_specs = Inl (KeyError ''name'')"
    using C7_compile_all_or_nothing[of broken_specs "''2026-01-01T00:00:00Z''"] bad by blast
  have ok': "list_all (\<lambda>entity. entity_name entity \<noteq> None
        \<and> list_all (\<lambda>field. field_name field \<noteq> None) (get_or (entity_fields entity) []))
      (specs_entities shop_specs)"
    using ok by (simp add: list_all_iff)
  show ?thesis
    using ok' 1 bad 2 anon
      C7_compile_all_or_nothing[of shop_specs "''2026-01-01T00:00:00Z''" undefined anonymous_algorithm anonymous_workflow]
    by blast
qed

text \<open>
  C7 as stated fails: one entity record without a name, between two well-formed ones, makes
  the compilation of all of them fail.
\<close>

theorem C7_malformed_record_counterexample:
  "entity_name customer_entity \<noteq> None \<and> entity_name order_entity \<noteq> None \<and> entity_name nameless_entity = None
   \<and> generate_graph ''2026-01-01T00:00:00Z''
        \<lparr>specs_entities = [customer_entity, nameless_entity, order_entity], specs_algorithms = [], specs_workflows = [billing_workflow]\<rparr>
       = Inl (KeyError ''name'')"
  by code_simp

section \<open>Properties of the lineage query\<close>

lemma traverse_edges_Cons:
  "traverse_edges edges direction current_id (edge # rest) (visited, visit_order, result) =
     traverse_edges edges direction current_id rest
       (case lineage_next direction current_id edge of
          None \<Rightarrow> (visited, visit_order, result)
        | Some x \<Rightarrow> traverse edges direction x (visited, visit_order, result @ [x]))"
  by (subst traverse_edges.simps(2)) (simp add: lineage_next_def)

lemma traverse_induct [case_names traverse Nil Cons]:
  assumes "\<And>edges direction current_id visited visit_order result.
      (current_id \<notin> visited \<Longrightarrow>
         Q edges direction current_id edges (insert current_id visited, visit_order @ [current_id], result))
      \<Longrightarrow> P edges direction current_id (visited, visit_order, result)"
    and "\<And>edges direction current_id state. Q edges direction current_id [] state"
    and "\<And>edges direction current_id edge rest visited visit_order result.
      (\<And>x. lineage_next direction current_id edge = Some x \<Longrightarrow>
            P edges direction x (visited, visit_order, result @ [x])) \<Longrightarrow>
      (\<And>x. lineage_next direction current_id edge = Some x \<Longrightarrow>
            Q edges direction current_id rest
              (traverse edges direction x (visited, visit_order, result @ [x]))) \<Longrightarrow>
      (lineage_next direction current_id edge = None \<Longrightarrow>
            Q edges direction current_id rest (visited, visit_order, result))
      \<Longrightarrow> Q edges direction current_id (edge # rest) (visited, visit_order, result)"
  shows "P edges direction current_id state"
    and "Q edges direction current_id es state"
proof (induction edges direction current_id state and edges direction current_id es state
    rule: traverse_traverse_edges.induct)
  case (1 edges direction current_id visited visit_order result)
  then show ?case by (intro assms(1))
next
  case (2 edges direction current_id state)
  show ?case by (rule assms(2))
next
  case (3 edges direction current_id edge rest visited visit_order result)
  show ?case
  proof (rule assms(3), goal_cases)
    case (1 x)
    then show ?case using 3(1,3) by (auto simp: lineage_next_def split: if_splits)
  next
    case (2 x)
    then show ?case using 3(2,4) by (auto simp: lineage_next_def split: if_splits)
  next
    case 3
    then show ?case using "3.IH"(5) by (auto simp: lineage_next_def split: if_splits)
  qed
qed

lemma first_occurrences_snoc:
  "first_occurrences (xs @ [x]) = (if x \<in> set xs then first_occurrences xs else first_occurrences xs @ [x])"
  by (simp add: first_occurrences_def)

lemma set_first_occurrences [simp]: "set (first_occurrences xs) = set xs"
  by (simp add: first_occurrences_def)

lemma distinct_first_occurrences [simp]: "distinct (first_occurrences xs)"
  by (simp add: first_occurrences_def)

lemma lineage_inv_seen:
  "lineage_inv start (visited, visit_order, result) \<Longrightarrow> x \<in> visited \<Longrightarrow>
   lineage_inv start (visited, visit_order, result @ [x])"
  by (auto simp: lineage_inv_def first_occurrences_snoc)

lemma lineage_inv_new:
  "lineage_inv start (visited, visit_order, result) \<Longrightarrow> x \<notin> visited \<Longrightarrow>
   lineage_inv start (insert x visited, visit_order @ [x], result @ [x])"
  by (auto simp: lineage_inv_def first_occurrences_snoc)

lemma traverse_lineage_inv:
  "\<forall>result. snd (snd state) = result @ [current_id]
      \<longrightarrow> lineage_inv start (fst state, fst (snd state), result)
      \<longrightarrow> lineage_inv start (traverse edges direction current_id state)"
  "lineage_inv start state \<longrightarrow> lineage_inv start (traverse_edges edges direction current_id es state)"
proof (induction edges direction current_id state and edges direction current_id es state
    rule: traverse_induct)
  case (traverse edges direction current_id visited visit_order result)
  show ?case
    using traverse lineage_inv_seen[of start visited visit_order _ current_id]
      lineage_inv_new[of start visited visit_order _ current_id]
    by (subst traverse.simps) auto
next
  case (Nil edges direction current_id state)
  show ?case by simp
next
  case (Cons edges direction current_id edge rest visited visit_order result)
  show ?case
  proof (cases "lineage_next direction current_id edge")
    case None
    with Cons(3) show ?thesis by (simp add: traverse_edges_Cons)
  next
    case (Some x)
    with Cons(1)[OF Some] Cons(2)[OF Some] show ?thesis by (simp add: traverse_edges_Cons)
  qed
qed

lemma traverse_sound:
  "lineage_sound edges direction start state \<longrightarrow> (start, current_id) \<in> (lineage_step edges direction)\<^sup>*
     \<longrightarrow> lineage_sound edges direction start (traverse edges direction current_id state)"
  "lineage_sound edges direction start state \<longrightarrow> (start, current_id) \<in> (lineage_step edges direction)\<^sup>*
     \<longrightarrow> set es \<subseteq> set edges
     \<longrightarrow> lineage_sound edges direction start (traverse_edges edges direction current_id es state)"
proof (induction edges direction current_id state and edges direction current_id es state
    rule: traverse_induct)
  case (traverse edges direction current_id visited visit_order result)
  show ?case
    using traverse by (subst traverse.simps) (auto simp: lineage_sound_def)
next
  case (Nil edges direction current_id state)
  show ?case by simp
next
  case (Cons edges direction current_id edge rest visited visit_order result)
  show ?case
  proof (cases "lineage_next direction current_id edge")
    case None
    with Cons(3) show ?thesis by (simp add: traverse_edges_Cons)
  next
    case (Some x)
    show ?thesis
    proof (intro impI)
      assume s: "lineage_sound edges direction start (visited, visit_order, result)"
        and c: "(start, current_id) \<in> (lineage_step edges direction)\<^sup>*"
        and e: "set (edge # rest) \<subseteq> set edges"
      from Some e have "(current_id, x) \<in> lineage_step edges direction"
        by (auto simp: lineage_step_def)
      with c have x: "(start, x) \<in> (lineage_step edges direction)\<^sup>+" by simp
      with s have "lineage_sound edges direction start (visited, visit_order, result @ [x])"
        by (auto simp: lineage_sound_def)
      with Cons(1)[OF Some] x
      have "lineage_sound edges direction start (traverse edges direction x (visited, visit_order, result @ [x]))"
        by (simp add: trancl_into_rtrancl)
      with Cons(2)[OF Some] c e show "lineage_sound edges direction start
          (traverse_edges edges direction current_id (edge # rest) (visited, visit_order, result))"
        by (simp add: traverse_edges_Cons Some)
    qed
  qed
qed

lemma lineage_post_refl: "lineage_post edges direction state state"
  by (simp add: lineage_post_def)

lemma lineage_post_trans:
  "lineage_post edges direction s1 s2 \<Longrightarrow> lineage_post edges direction s2 s3 \<Longrightarrow>
   lineage_post edges direction s1 s3"
  unfolding lineage_post_def by (intro conjI ballI allI impI) blast+

lemma lineage_post_visit:
  assumes p: "lineage_post edges direction (insert c v, ord @ [c], r) T"
    and a: "\<forall>e \<in> set edges. \<forall>m. lineage_next direction c e = Some m \<longrightarrow>
              m \<in> fst T \<and> m \<in> set (snd (snd T))"
  shows "lineage_post edges direction (v, ord, r) T \<and> c \<in> fst T"
proof -
  from p have sub: "insert c v \<subseteq> fst T" and res: "set r \<subseteq> set (snd (snd T))"
    and cl: "\<And>n m. n \<in> fst T \<Longrightarrow> n \<notin> insert c v \<Longrightarrow> (n, m) \<in> lineage_step edges direction
               \<Longrightarrow> m \<in> fst T \<and> m \<in> set (snd (snd T))"
    unfolding lineage_post_def fst_conv snd_conv by blast+
  have "m \<in> fst T \<and> m \<in> set (snd (snd T))"
    if n: "n \<in> fst T" "n \<notin> v" and m: "(n, m) \<in> lineage_step edges direction" for n m
  proof (cases "n = c")
    case True
    from m obtain e where "e \<in> set edges" "lineage_next direction n e = Some m"
      unfolding lineage_step_def by blast
    with a True show ?thesis by blast
  next
    case False
    with n have "n \<notin> insert c v" by simp
    from cl[OF n(1) this m] show ?thesis .
  qed
  with sub res show ?thesis
    unfolding lineage_post_def fst_conv snd_conv by blast
qed

lemma lineage_post_step:
  assumes p1: "lineage_post edges direction (v, ord, r @ [x]) S1" and x1: "x \<in> fst S1"
    and p2: "lineage_post edges direction S1 S2"
  shows "lineage_post edges direction (v, ord, r) S2 \<and> x \<in> fst S2 \<and> x \<in> set (snd (snd S2))"
proof -
  have p0: "lineage_post edges direction (v, ord, r) (v, ord, r @ [x])"
    unfolding lineage_post_def fst_conv snd_conv by auto
  have p: "lineage_post edges direction (v, ord, r) S2"
    using lineage_post_trans[OF p0 lineage_post_trans[OF p1 p2]] .
  from p2 have "fst S1 \<subseteq> fst S2" "set (snd (snd S1)) \<subseteq> set (snd (snd S2))"
    unfolding lineage_post_def by blast+
  moreover from p1 have "set (r @ [x]) \<subseteq> set (snd (snd S1))"
    unfolding lineage_post_def fst_conv snd_conv by blast
  then have "x \<in> set (snd (snd S1))" by simp
  ultimately show ?thesis using p x1 by blast
qed

lemma traverse_complete:
  "lineage_post edges direction state (traverse edges direction current_id state)
     \<and> current_id \<in> fst (traverse edges direction current_id state)"
  "lineage_post edges direction state (traverse_edges edges direction current_id es state)
     \<and> (\<forall>e \<in> set es. \<forall>m. lineage_next direction current_id e = Some m \<longrightarrow>
           m \<in> fst (traverse_edges edges direction current_id es state)
           \<and> m \<in> set (snd (snd (traverse_edges edges direction current_id es state))))"
proof (induction edges direction current_id state and edges direction current_id es state
    rule: traverse_induct)
  case (traverse edges direction current_id visited visit_order result)
  show ?case
  proof (cases "current_id \<in> visited")
    case True
    then have "traverse edges direction current_id (visited, visit_order, result)
        = (visited, visit_order, result)"
      by (subst traverse.simps) simp
    with True show ?thesis by (simp add: lineage_post_refl)
  next
    case False
    let ?T = "traverse_edges edges direction current_id edges
             (insert current_id visited, visit_order @ [current_id], result)"
    have eq: "traverse edges direction current_id (visited, visit_order, result) = ?T"
      using False by (subst traverse.simps) simp
    note ih = traverse[OF False]
    show ?thesis
      unfolding eq by (rule lineage_post_visit[OF conjunct1[OF ih] conjunct2[OF ih]])
  qed
next
  case (Nil edges direction current_id state)
  show ?case by (simp add: lineage_post_refl)
next
  case (Cons edges direction current_id edge rest visited visit_order result)
  show ?case
  proof (cases "lineage_next direction current_id edge")
    case None
    have eq: "traverse_edges edges direction current_id (edge # rest) (visited, visit_order, result)
        = traverse_edges edges direction current_id rest (visited, visit_order, result)"
      by (simp add: traverse_edges_Cons None)
    show ?thesis unfolding eq using Cons(3)[OF None] None by simp
  next
    case (Some x)
    let ?S1 = "traverse edges direction x (visited, visit_order, result @ [x])"
    let ?S2 = "traverse_edges edges direction current_id rest ?S1"
    have eq: "traverse_edges edges direction current_id (edge # rest) (visited, visit_order, result) = ?S2"
      by (simp add: traverse_edges_Cons Some)
    note ih1 = Cons(1)[OF Some] and ih2 = Cons(2)[OF Some]
    note st = lineage_post_step[OF conjunct1[OF ih1] conjunct2[OF ih1] conjunct1[OF ih2]]
    have "m \<in> fst ?S2 \<and> m \<in> set (snd (snd ?S2))"
      if "e \<in> set (edge # rest)" "lineage_next direction current_id e = Some m" for e m
    proof (cases "e = edge")
      case True
      with that Some have "m = x" by simp
      with st show ?thesis by simp
    next
      case False
      with that have "e \<in> set rest" by simp
      with conjunct2[OF ih2] that(2) show ?thesis by blast
    qed
    with st show ?thesis unfolding eq by blast
  qed
qed

lemma lineage_ends_Cons:
  "lineage_ends (edge # rest) direction current_id =
     (case lineage_next direction current_id edge of
        None \<Rightarrow> lineage_ends rest direction current_id
      | Some x \<Rightarrow> x # lineage_ends rest direction current_id)"
  by (simp add: lineage_ends_def map_filter_simps split: option.splits)

lemma traverse_count:
  "lineage_count edges direction [] state (traverse edges direction current_id state)"
  "lineage_count edges direction (lineage_ends es direction current_id) state
     (traverse_edges edges direction current_id es state)"
proof (induction edges direction current_id state and edges direction current_id es state
    rule: traverse_induct)
  case (traverse edges direction current_id visited visit_order result)
  show ?case
  proof (cases "current_id \<in> visited")
    case True
    then have "traverse edges direction current_id (visited, visit_order, result)
        = (visited, visit_order, result)"
      by (subst traverse.simps) simp
    then show ?thesis by (simp add: lineage_count_def)
  next
    case False
    let ?T = "traverse_edges edges direction current_id edges
             (insert current_id visited, visit_order @ [current_id], result)"
    have eq: "traverse edges direction current_id (visited, visit_order, result) = ?T"
      using False by (subst traverse.simps) simp
    from traverse[OF False] obtain new where
      n: "fst (snd ?T) = (visit_order @ [current_id]) @ new"
      and m: "mset (snd (snd ?T)) = mset result + mset (lineage_ends edges direction current_id)
          + mset (concat (map (lineage_ends edges direction) new))"
      unfolding lineage_count_def fst_conv snd_conv by blast
    have "fst (snd ?T) = visit_order @ (current_id # new)" using n by simp
    moreover have "mset (snd (snd ?T)) = mset result + mset []
        + mset (concat (map (lineage_ends edges direction) (current_id # new)))"
      using m by simp
    ultimately show ?thesis
      unfolding eq lineage_count_def fst_conv snd_conv by blast
  qed
next
  case (Nil edges direction current_id state)
  show ?case by (simp add: lineage_count_def lineage_ends_def map_filter_simps)
next
  case (Cons edges direction current_id edge rest visited visit_order result)
  show ?case
  proof (cases "lineage_next direction current_id edge")
    case None
    have eq: "traverse_edges edges direction current_id (edge # rest) (visited, visit_order, result)
        = traverse_edges edges direction current_id rest (visited, visit_order, result)"
      by (simp add: traverse_edges_Cons None)
    show ?thesis unfolding eq using Cons(3)[OF None] by (simp add: lineage_ends_Cons None)
  next
    case (Some x)
    let ?S1 = "traverse edges direction x (visited, visit_order, result @ [x])"
    let ?S2 = "traverse_edges edges direction current_id rest ?S1"
    have eq: "traverse_edges edges direction current_id (edge # rest) (visited, visit_order, result) = ?S2"
      by (simp add: traverse_edges_Cons Some)
    from Cons(1)[OF Some] obtain n1 where
      o1: "fst (snd ?S1) = visit_order @ n1"
      and r1: "mset (snd (snd ?S1)) = mset (result @ [x]) + mset []
          + mset (concat (map (lineage_ends edges direction) n1))"
      unfolding lineage_count_def fst_conv snd_conv by blast
    from Cons(2)[OF Some] obtain n2 where
      o2: "fst (snd ?S2) = fst (snd ?S1) @ n2"
      and r2: "mset (snd (snd ?S2)) = mset (snd (snd ?S1)) + mset (lineage_ends rest direction current_id)
          + mset (concat (map (lineage_ends edges direction) n2))"
      unfolding lineage_count_def by blast
    have "fst (snd ?S2) = visit_order @ (n1 @ n2)" using o1 o2 by simp
    moreover have "mset (snd (snd ?S2)) = mset result + mset (lineage_ends (edge # rest) direction current_id)
          + mset (concat (map (lineage_ends edges direction) (n1 @ n2)))"
      unfolding r2 r1 by (simp add: lineage_ends_Cons Some)
    ultimately show ?thesis
      unfolding eq lineage_count_def fst_conv snd_conv by blast
  qed
qed

lemma get_lineage_two_hop: "get_lineage two_hop_graph ''X'' ''upstream'' = [''Y'', ''Z'']"
  by code_simp

lemma lineage_closed:
  assumes "lineage_post edges direction ({}, [], []) state" "start \<in> fst state"
  shows "(lineage_step edges direction)\<^sup>* `` {start} \<subseteq> fst state"
    and "(lineage_step edges direction)\<^sup>+ `` {start} \<subseteq> set (snd (snd state))"
proof -
  from assms(1) have cl: "\<And>n m. n \<in> fst state \<Longrightarrow> (n, m) \<in> lineage_step edges direction
      \<Longrightarrow> m \<in> fst state \<and> m \<in> set (snd (snd state))"
    unfolding lineage_post_def fst_conv snd_conv by blast
  have r: "y \<in> fst state" if "(start, y) \<in> (lineage_step edges direction)\<^sup>*" for y
    using that by (induction rule: rtrancl_induct) (use assms(2) cl in blast)+
  then show "(lineage_step edges direction)\<^sup>* `` {start} \<subseteq> fst state" by blast
  show "(lineage_step edges direction)\<^sup>+ `` {start} \<subseteq> set (snd (snd state))"
  proof
    fix y assume "y \<in> (lineage_step edges direction)\<^sup>+ `` {start}"
    then have "(start, y) \<in> (lineage_step edges direction)\<^sup>+" by simp
    then obtain n where "(start, n) \<in> (lineage_step edges direction)\<^sup>*"
      "(n, y) \<in> lineage_step edges direction"
      by (meson tranclD2)
    with r cl show "y \<in> set (snd (snd state))" by blast
  qed
qed

lemma traverse_edge_ends_followed:
  "\<forall>pending result. snd (snd state) = result @ [current_id] \<longrightarrow>
     edge_ends_followed edges direction (current_id # pending) (fst state, result)
       = edge_ends_followed edges direction pending
           (lineage_view (traverse edges direction current_id state))"
  "\<forall>pending.
     edge_ends_followed edges direction (lineage_ends es direction current_id @ pending)
         (lineage_view state)
       = edge_ends_followed edges direction pending
           (lineage_view (traverse_edges edges direction current_id es state))"
proof (induction edges direction current_id state and edges direction current_id es state
    rule: traverse_induct)
  case (traverse edges direction current_id visited visit_order result)
  show ?case
  proof (intro allI impI)
    fix pending r
    assume "snd (snd (visited, visit_order, result)) = r @ [current_id]"
    then have r: "result = r @ [current_id]" by simp
    show "edge_ends_followed edges direction (current_id # pending) (fst (visited, visit_order, result), r)
       = edge_ends_followed edges direction pending
           (lineage_view (traverse edges direction current_id (visited, visit_order, result)))"
    proof (cases "current_id \<in> visited")
      case True
      then have "traverse edges direction current_id (visited, visit_order, result)
          = (visited, visit_order, result)"
        by (subst traverse.simps) simp
      with True r show ?thesis by (simp add: lineage_view_def)
    next
      case False
      let ?T = "traverse_edges edges direction current_id edges
             (insert current_id visited, visit_order @ [current_id], result)"
      have eq: "traverse edges direction current_id (visited, visit_order, result) = ?T"
        using False by (subst traverse.simps) simp
      from traverse[OF False] have
        "edge_ends_followed edges direction (lineage_ends edges direction current_id @ pending)
           (insert current_id visited, result)
         = edge_ends_followed edges direction pending (lineage_view ?T)"
        by (simp add: lineage_view_def)
      with False r show ?thesis unfolding eq by simp
    qed
  qed
next
  case (Nil edges direction current_id state)
  show ?case by (simp add: lineage_ends_def map_filter_simps)
next
  case (Cons edges direction current_id edge rest visited visit_order result)
  show ?case
  proof (cases "lineage_next direction current_id edge")
    case None
    have eq: "traverse_edges edges direction current_id (edge # rest) (visited, visit_order, result)
        = traverse_edges edges direction current_id rest (visited, visit_order, result)"
      by (simp add: traverse_edges_Cons None)
    show ?thesis unfolding eq using Cons(3)[OF None] by (simp add: lineage_ends_Cons None)
  next
    case (Some x)
    let ?S1 = "traverse edges direction x (visited, visit_order, result @ [x])"
    let ?S2 = "traverse_edges edges direction current_id rest ?S1"
    have eq: "traverse_edges edges direction current_id (edge # rest) (visited, visit_order, result) = ?S2"
      by (simp add: traverse_edges_Cons Some)
    show ?thesis
    proof
      fix pending
      have "edge_ends_followed edges direction
              (lineage_ends (edge # rest) direction current_id @ pending)
              (lineage_view (visited, visit_order, result))
          = edge_ends_followed edges direction
              (x # (lineage_ends rest direction current_id @ pending)) (visited, result)"
        by (simp add: lineage_ends_Cons Some lineage_view_def)
      also have "\<dots> = edge_ends_followed edges direction
              (lineage_ends rest direction current_id @ pending) (lineage_view ?S1)"
        using Cons(1)[OF Some] by simp
      also have "\<dots> = edge_ends_followed edges direction pending (lineage_view ?S2)"
        using Cons(2)[OF Some] by simp
      finally show "edge_ends_followed edges direction
              (lineage_ends (edge # rest) direction current_id @ pending)
              (lineage_view (visited, visit_order, result))
          = edge_ends_followed edges direction pending
              (lineage_view (traverse_edges edges direction current_id (edge # rest)
                 (visited, visit_order, result)))"
        unfolding eq .
    qed
  qed
qed

lemma get_lineage_edge_ends_followed:
  "get_lineage graph node_id direction =
     snd (edge_ends_followed (graph_edges graph) direction
            (lineage_ends (graph_edges graph) direction node_id) ({node_id}, []))"
proof -
  let ?edges = "graph_edges graph"
  let ?T = "traverse_edges ?edges direction node_id ?edges ({node_id}, [node_id], [])"
  have eq: "traverse ?edges direction node_id ({}, [], []) = ?T"
    by (subst traverse.simps) simp
  from traverse_edge_ends_followed(2)[of ?edges direction ?edges node_id "({node_id}, [node_id], [])"]
  have "edge_ends_followed ?edges direction (lineage_ends ?edges direction node_id @ [])
          (lineage_view ({node_id}, [node_id], []))
      = edge_ends_followed ?edges direction [] (lineage_view ?T)"
    by blast
  then have "edge_ends_followed ?edges direction (lineage_ends ?edges direction node_id) ({node_id}, [])
      = lineage_view ?T"
    by (cases ?T) (simp add: lineage_view_def)
  then show ?thesis
    by (simp add: get_lineage_def eq lineage_view_def split: prod.splits)
qed

text \<open>
  C6, as amended. For every graph, cyclic or not, every start id and every direction,
  \<^verbatim>\<open>get_lineage\<close> terminates (\<open>traverse\<close> is total) and visits no node twice. The list it
  returns is the list of the edge ends followed, in the order followed (\<open>edge_ends_followed\<close>):
  first the edge ends at the start id, in the order of the edge list; an edge end is listed
  when it is followed, and when it is a node not visited before, the edge ends at it are
  followed next. So the list has one entry for every edge end at every visited node, and an
  id can occur in it more than once. The ids in it are exactly the ids reachable from the
  start id over one or more edges in the chosen direction, the nodes visited are the start id
  and those, and the first occurrences of the ids other than the start id are the nodes
  visited after the start, in the order of the visits. With edges \<^verbatim>\<open>Y->X\<close> and \<^verbatim>\<open>Z->Y\<close> the
  upstream lineage of \<^verbatim>\<open>X\<close> is \<^verbatim>\<open>[Y, Z]\<close>.
\<close>

theorem C6_lineage_traversal:
  "distinct (get_lineage_visit_order graph node_id direction)
   \<and> get_lineage graph node_id direction =
       snd (edge_ends_followed (graph_edges graph) direction
              (lineage_ends (graph_edges graph) direction node_id) ({node_id}, []))
   \<and> mset (get_lineage graph node_id direction) =
       mset (concat (map (lineage_ends (graph_edges graph) direction)
                      (get_lineage_visit_order graph node_id direction)))
   \<and> get_lineage_visit_order graph node_id direction =
       node_id # filter (\<lambda>y. y \<noteq> node_id) (first_occurrences (get_lineage graph node_id direction))
   \<and> set (get_lineage graph node_id direction) = (lineage_step (graph_edges graph) direction)\<^sup>+ `` {node_id}
   \<and> set (get_lineage_visit_order graph node_id direction) = (lineage_step (graph_edges graph) direction)\<^sup>* `` {node_id}
   \<and> get_lineage two_hop_graph ''X'' ''upstream'' = [''Y'', ''Z'']"
proof -
  let ?edges = "graph_edges graph"
  let ?T = "traverse_edges ?edges direction node_id ?edges ({node_id}, [node_id], [])"
  obtain v ord r where T: "?T = (v, ord, r)" by (metis prod_cases3)
  have eq: "traverse ?edges direction node_id ({}, [], []) = (v, ord, r)"
    by (subst traverse.simps) (simp add: T)
  have gl: "get_lineage graph node_id direction = r"
    and gv: "get_lineage_visit_order graph node_id direction = ord"
    by (simp_all add: get_lineage_def get_lineage_visit_order_def eq)
  have "lineage_inv node_id ({node_id}, [node_id], [])"
    by (simp add: lineage_inv_def first_occurrences_def)
  with traverse_lineage_inv(2)[of node_id _ ?edges direction node_id ?edges]
  have inv: "lineage_inv node_id (v, ord, r)" unfolding T[symmetric] by blast
  then have o: "ord = node_id # filter (\<lambda>y. y \<noteq> node_id) (first_occurrences r)"
    and vo: "set ord = v"
    unfolding lineage_inv_def prod.case by blast+
  have d: "distinct ord" by (subst o) simp
  have "lineage_sound ?edges direction node_id ({}, [], [])"
    by (simp add: lineage_sound_def)
  with traverse_sound(1)[of ?edges direction node_id "({}, [], [])" node_id]
  have "lineage_sound ?edges direction node_id (v, ord, r)" unfolding eq by simp
  then have s1: "v \<subseteq> (lineage_step ?edges direction)\<^sup>* `` {node_id}"
    and s2: "set r \<subseteq> (lineage_step ?edges direction)\<^sup>+ `` {node_id}"
    by (simp_all add: lineage_sound_def)
  from traverse_complete(1)[of ?edges direction "({}, [], [])" node_id]
  have p: "lineage_post ?edges direction ({}, [], []) (v, ord, r)" and nv: "node_id \<in> fst (v, ord, r)"
    unfolding eq by blast+
  from lineage_closed[OF p nv]
  have c1: "(lineage_step ?edges direction)\<^sup>* `` {node_id} \<subseteq> v"
    and c2: "(lineage_step ?edges direction)\<^sup>+ `` {node_id} \<subseteq> set r" by simp_all
  have f: "r = snd (edge_ends_followed ?edges direction
              (lineage_ends ?edges direction node_id) ({node_id}, []))"
    using get_lineage_edge_ends_followed[of graph node_id direction] unfolding gl .
  from traverse_count(1)[of ?edges direction "({}, [], [])" node_id]
  have m: "mset r = mset (concat (map (lineage_ends ?edges direction) ord))"
    unfolding lineage_count_def eq by auto
  have 1: "distinct ord" by (rule d)
  have 5: "set r = (lineage_step ?edges direction)\<^sup>+ `` {node_id}" using s2 c2 by blast
  have 6: "set ord = (lineage_step ?edges direction)\<^sup>* `` {node_id}" using s1 c1 vo by blast
  show ?thesis
    unfolding gl gv using 1 f m o 5 6 get_lineage_two_hop by blast
qed

theorem C6_lineage_traversal_witness:
  "get_lineage diamond_graph ''X'' ''upstream'' = [''Y'', ''Z'', ''Z'']
   \<and> snd (edge_ends_followed (graph_edges diamond_graph) ''upstream''
              (lineage_ends (graph_edges diamond_graph) ''upstream'' ''X'') ({''X''}, []))
       = [''Y'', ''Z'', ''Z'']
   \<and> get_lineage_visit_order diamond_graph ''X'' ''upstream'' = [''X'', ''Y'', ''Z'']
   \<and> get_lineage loop_graph ''X'' ''downstream'' = [''Y'', ''X'']"
proof -
  have e: "snd (edge_ends_followed (graph_edges diamond_graph) ''upstream''
              (lineage_ends (graph_edges diamond_graph) ''upstream'' ''X'') ({''X''}, []))
       = [''Y'', ''Z'', ''Z'']"
    by code_simp
  have g: "get_lineage diamond_graph ''X'' ''upstream'' = [''Y'', ''Z'', ''Z'']"
    using C6_lineage_traversal[of diamond_graph "''X''" "''upstream''"] unfolding e by blast
  have "first_occurrences [''Y'', ''Z'', ''Z''] = [''Y'', ''Z'']"
    by (simp add: first_occurrences_def)
  then have v: "get_lineage_visit_order diamond_graph ''X'' ''upstream'' = [''X'', ''Y'', ''Z'']"
    using C6_lineage_traversal[of diamond_graph "''X''" "''upstream''"] unfolding g by simp
  have e2: "snd (edge_ends_followed (graph_edges loop_graph) ''downstream''
              (lineage_ends (graph_edges loop_graph) ''downstream'' ''X'') ({''X''}, []))
       = [''Y'', ''X'']"
    by code_simp
  have l: "get_lineage loop_graph ''X'' ''downstream'' = [''Y'', ''X'']"
    using C6_lineage_traversal[of loop_graph "''X''" "''downstream''"] unfolding e2 by blast
  from g e v l show ?thesis by blast
qed

text \<open>
  C6 as stated fails: with edges \<^verbatim>\<open>Y->X\<close>, \<^verbatim>\<open>Z->X\<close>, \<^verbatim>\<open>Z->Y\<close> the nodes reached from \<^verbatim>\<open>X\<close> are
  visited in the order \<^verbatim>\<open>Y\<close>, \<^verbatim>\<open>Z\<close>, each once, and the list returned is not \<^verbatim>\<open>[Y, Z]\<close>.
\<close>

theorem C6_visitation_list_counterexample:
  "get_lineage_visit_order diamond_graph ''X'' ''upstream'' = [''X'', ''Y'', ''Z'']
   \<and> get_lineage diamond_graph ''X'' ''upstream'' = [''Y'', ''Z'', ''Z'']
   \<and> get_lineage diamond_graph ''X'' ''upstream'' \<noteq> [''Y'', ''Z'']"
  by code_simp

text \<open>
  C10. With edges \<^verbatim>\<open>Y->X\<close>, \<^verbatim>\<open>Z->X\<close>, \<^verbatim>\<open>Z->Y\<close> the upstream lineage of \<^verbatim>\<open>X\<close> lists \<^verbatim>\<open>Z\<close> twice;
  with the cycle \<^verbatim>\<open>Y->X\<close>, \<^verbatim>\<open>X->Y\<close> it contains \<^verbatim>\<open>X\<close> itself. In general the list returned
  has, up to order, one entry for every edge end at every visited node.
\<close>

theorem C10_lineage_repeats_ids:
  "get_lineage diamond_graph ''X'' ''upstream'' = [''Y'', ''Z'', ''Z'']
   \<and> \<not> distinct (get_lineage diamond_graph ''X'' ''upstream'')
   \<and> get_lineage loop_graph ''X'' ''upstream'' = [''Y'', ''X'']
   \<and> ''X'' \<in> set (get_lineage loop_graph ''X'' ''upstream'')
   \<and> mset (get_lineage graph node_id direction) =
       mset (concat (map (lineage_ends (graph_edges graph) direction)
                      (get_lineage_visit_order graph node_id direction)))"
proof -
  have a: "get_lineage diamond_graph ''X'' ''upstream'' = [''Y'', ''Z'', ''Z'']" by code_simp
  have b: "get_lineage loop_graph ''X'' ''upstream'' = [''Y'', ''X'']" by code_simp
  from traverse_count(1)[of "graph_edges graph" direction "({}, [], [])" node_id]
  have "mset (get_lineage graph node_id direction) =
       mset (concat (map (lineage_ends (graph_edges graph) direction)
                      (get_lineage_visit_order graph node_id direction)))"
    unfolding lineage_count_def get_lineage_def get_lineage_visit_order_def
    by (auto split: prod.splits)
  then show ?thesis unfolding a b by simp
qed

end
